theory Spec2Isabelle
  imports Main "HOL-Library.Multiset" "HOL-Library.List_Lexorder" "HOL-Library.Char_ord"
begin

section \<open>The load scheduler of \<open>image_source\<close>\<close>

text \<open>
  \<open>image_source\<close> keeps two vectors under \<open>scheduled_images_lock_\<close>:
  \<open>scheduled_images_\<close>, a vector of \<open>prio_shared_image\<close> (a pair of a \<open>size_t\<close> priority
  and a \<open>shared_ptr<image>\<close>), and \<open>unscheduled_images_\<close>, a vector of raw \<open>image*\<close>.
  Images are compared by pointer, so an image is a value of an arbitrary type \<open>'i\<close>.
  Priorities are only compared and copied, never computed with, so \<open>size_t\<close> is \<open>nat\<close>.
  The members keep their names without the trailing underscore.
\<close>

type_synonym 'i prio_shared_image = "nat \<times> 'i"

record 'i scheduler =
  scheduled_images :: "'i prio_shared_image list"
  unscheduled_images :: "'i list"

definition empty_scheduler :: "'i scheduler" where
  "empty_scheduler = \<lparr>scheduled_images = [], unscheduled_images = []\<rparr>"

subsection \<open>\<open>std::ranges::sort\<close>\<close>

text \<open>
  \<open>schedule_image\<close> calls \<open>std::ranges::sort(scheduled_images_, std::ranges::greater(),
  &prio_shared_image::first)\<close>. The library promises a permutation of the input that is
  ordered by the projection under the comparison; it is not a stable sort, so where
  entries of equal priority end up is the implementation's choice. The sort is therefore
  a parameter \<open>srt\<close> of the model, and \<open>sort_contract\<close> is all that is known about it.
\<close>

type_synonym 'i sorter = "'i prio_shared_image list \<Rightarrow> 'i prio_shared_image list"

definition prio_sorted :: "'i prio_shared_image list \<Rightarrow> bool" where
  "prio_sorted es = sorted_wrt (\<lambda>a b. fst b \<le> fst a) es"

definition sort_contract :: "'i sorter \<Rightarrow> bool" where
  "sort_contract srt \<longleftrightarrow> (\<forall>es. mset (srt es) = mset es \<and> prio_sorted (srt es))"

definition sort_stable :: "'i sorter \<Rightarrow> bool" where
  "sort_stable srt \<longleftrightarrow>
     (\<forall>es k. filter (\<lambda>e. fst e = k) (srt es) = filter (\<lambda>e. fst e = k) es)"

text \<open>
  A sort that meets the contract and keeps entries of equal priority in their input
  order.
\<close>

fun insert_before :: "'i prio_shared_image \<Rightarrow> 'i prio_shared_image list \<Rightarrow> 'i prio_shared_image list" where
  "insert_before e [] = [e]"
| "insert_before e (y # ys) = (if fst e < fst y then y # insert_before e ys else e # y # ys)"

fun stable_sort :: "'i sorter" where
  "stable_sort [] = []"
| "stable_sort (e # es) = insert_before e (stable_sort es)"

subsection \<open>The sort of the GNU C++ library\<close>

text \<open>
  What \<open>std::ranges::sort\<close> does with entries of equal priority is decided by the
  library the program is built with. This is the sort of libstdc++ (\<open>std::__sort\<close> in
  \<open>bits/stl_algo.h\<close>, with the heap operations of \<open>bits/stl_heap.h\<close>), which
  \<open>std::ranges::sort\<close> runs with the comparison \<open>greater_first\<close>, that is
  \<open>std::ranges::greater\<close> on the projection \<open>first\<close>: quicksort with a median-of-three
  pivot while more than \<open>_S_threshold = 16\<close> elements are left, heap sort once the depth
  limit \<open>2 * __lg(n)\<close> is used up, and a final insertion sort. The vector is a list read
  with \<open>!\<close> and written with list update; iterators are indices. \<open>lasti\<close> and \<open>cuti\<close>
  are the library's \<open>__last\<close> and \<open>__cut\<close>.

  The insertion sort keeps the sorted prefix in reverse (\<open>rps\<close>), so that the library's
  walk from right to left is a walk down the list. The \<open>__unguarded\<close> loops of the
  library have no bounds check, because an element that stops them is known to be there;
  here they also stop at the end of the list.
\<close>

definition greater_first :: "'i prio_shared_image \<Rightarrow> 'i prio_shared_image \<Rightarrow> bool" where
  "greater_first a b \<longleftrightarrow> fst b < fst a"


fun unguarded_linear_insert :: "'i prio_shared_image \<Rightarrow> 'i prio_shared_image list \<Rightarrow> 'i prio_shared_image list" where
  "unguarded_linear_insert val [] = [val]"
| "unguarded_linear_insert val (x # rps) =
     (if greater_first val x then x # unguarded_linear_insert val rps else val # x # rps)"

fun insertion_loop :: "'i prio_shared_image list \<Rightarrow> 'i prio_shared_image list \<Rightarrow> 'i prio_shared_image list" where
  "insertion_loop rps [] = rev rps"
| "insertion_loop rps (v # rest) =
     insertion_loop
       (if greater_first v (last rps) then rps @ [v] else unguarded_linear_insert v rps) rest"

fun insertion_sort :: "'i sorter" where
  "insertion_sort [] = []"
| "insertion_sort (x # xs) = insertion_loop [x] xs"























subsection \<open>\<open>schedule_image\<close>, \<open>unschedule_image\<close>, \<open>next_scheduled_image\<close>\<close>

text \<open>
  \<open>std::ranges::find(scheduled_images_, image, &prio_shared_image::second)\<close> is the first
  entry whose image is \<open>image\<close>.
\<close>

definition find_entry :: "'i \<Rightarrow> 'i prio_shared_image list \<Rightarrow> 'i prio_shared_image option" where
  "find_entry img es = find (\<lambda>e. snd e = img) es"

text \<open>\<open>it->first = priority\<close> at the entry \<open>find\<close> returned.\<close>

fun set_priority :: "'i \<Rightarrow> nat \<Rightarrow> 'i prio_shared_image list \<Rightarrow> 'i prio_shared_image list" where
  "set_priority img priority [] = []"
| "set_priority img priority (e # es) =
     (if snd e = img then (priority, snd e) # es else e # set_priority img priority es)"

text \<open>\<open>scheduled_images_.erase(it)\<close> at the entry \<open>find\<close> returned.\<close>

fun erase_entry :: "'i \<Rightarrow> 'i prio_shared_image list \<Rightarrow> 'i prio_shared_image list" where
  "erase_entry img [] = []"
| "erase_entry img (e # es) = (if snd e = img then es else e # erase_entry img es)"

text \<open>
  \<open>std::swap(*jt, unscheduled_images_.back()); unscheduled_images_.pop_back()\<close> at the
  first position \<open>jt\<close> holding \<open>image\<close>: the last element takes the place of the removed one.
\<close>

fun swap_remove :: "'i \<Rightarrow> 'i list \<Rightarrow> 'i list" where
  "swap_remove img [] = []"
| "swap_remove img (y # ys) =
     (if y = img then (if ys = [] then [] else last ys # butlast ys)
      else y # swap_remove img ys)"

text \<open>The part of \<open>schedule_image\<close> after the queue was changed: sort, then purge.\<close>

definition sort_and_purge :: "'i sorter \<Rightarrow> 'i \<Rightarrow> 'i prio_shared_image list \<Rightarrow> 'i scheduler \<Rightarrow> 'i scheduler" where
  "sort_and_purge srt img es s =
     s\<lparr>scheduled_images := srt es,
       unscheduled_images :=
         (if img \<in> set (unscheduled_images s)
          then swap_remove img (unscheduled_images s)
          else unscheduled_images s)\<rparr>"

definition schedule_image :: "'i sorter \<Rightarrow> 'i \<Rightarrow> nat \<Rightarrow> 'i scheduler \<Rightarrow> 'i scheduler" where
  "schedule_image srt img priority s =
     (case find_entry img (scheduled_images s) of
        None \<Rightarrow> sort_and_purge srt img (scheduled_images s @ [(priority, img)]) s
      | Some e \<Rightarrow>
          if fst e \<noteq> priority
          then sort_and_purge srt img (set_priority img priority (scheduled_images s)) s
          else s)"

definition unschedule_image :: "'i \<Rightarrow> 'i scheduler \<Rightarrow> 'i scheduler" where
  "unschedule_image img s =
     (case find_entry img (scheduled_images s) of
        Some e \<Rightarrow> s\<lparr>scheduled_images := erase_entry img (scheduled_images s)\<rparr>
      | None \<Rightarrow>
          if img \<notin> set (unscheduled_images s)
          then s\<lparr>unscheduled_images := unscheduled_images s @ [img]\<rparr>
          else s)"

text \<open>
  \<open>next_scheduled_image\<close> returns the empty pointer (\<open>None\<close>) on an empty queue and
  otherwise moves the image out of \<open>scheduled_images_.back()\<close> and pops that entry.
\<close>

definition next_scheduled_image :: "'i scheduler \<Rightarrow> 'i option \<times> 'i scheduler" where
  "next_scheduled_image s =
     (if scheduled_images s = [] then (None, s)
      else (Some (snd (last (scheduled_images s))),
            s\<lparr>scheduled_images := butlast (scheduled_images s)\<rparr>))"

subsection \<open>Runs of scheduler calls\<close>

datatype 'i sched_op = Schedule 'i nat | Unschedule 'i | Next

fun sched_step :: "'i sorter \<Rightarrow> 'i sched_op \<Rightarrow> 'i scheduler \<Rightarrow> 'i scheduler" where
  "sched_step srt (Schedule img priority) s = schedule_image srt img priority s"
| "sched_step srt (Unschedule img) s = unschedule_image img s"
| "sched_step srt Next s = snd (next_scheduled_image s)"

fun sched_run :: "'i sorter \<Rightarrow> 'i sched_op list \<Rightarrow> 'i scheduler \<Rightarrow> 'i scheduler" where
  "sched_run srt [] s = s"
| "sched_run srt (c # cs) s = sched_run srt cs (sched_step srt c s)"

text \<open>What holds of the two vectors in every state a run reaches.\<close>

definition sched_inv :: "'i scheduler \<Rightarrow> bool" where
  "sched_inv s \<longleftrightarrow>
     prio_sorted (scheduled_images s) \<and>
     distinct (map snd (scheduled_images s)) \<and>
     distinct (unscheduled_images s) \<and>
     snd ` set (scheduled_images s) \<inter> set (unscheduled_images s) = {}"

section \<open>The worker thread\<close>

text \<open>
  Modelled from the spec: class \<open>image\<close> (its header and implementation are not among the
  sources). An image is in one of four states; \<open>load()\<close> decodes synchronously and ends
  in \<open>loaded\<close> or, when the decode fails, in \<open>failed\<close>; \<open>clear()\<close> releases the payload and
  returns to \<open>unloaded\<close> from any state. What \<open>image::operator bool\<close> (the test
  \<open>!(*img)\<close> in \<open>work_loop\<close>) answers in each state is not visible, so it is a parameter
  \<open>valid\<close> of the worker.
\<close>

datatype image_state = unloaded | loading | loaded | failed

definition load_begin :: "'i \<Rightarrow> ('i \<Rightarrow> image_state) \<Rightarrow> ('i \<Rightarrow> image_state)" where
  "load_begin img m = m(img := loading)"

definition load_end :: "bool \<Rightarrow> 'i \<Rightarrow> ('i \<Rightarrow> image_state) \<Rightarrow> ('i \<Rightarrow> image_state)" where
  "load_end ok img m = m(img := (if ok then loaded else failed))"

definition clear :: "'i \<Rightarrow> ('i \<Rightarrow> image_state) \<Rightarrow> ('i \<Rightarrow> image_state)" where
  "clear img m = m(img := unloaded)"

text \<open>
  \<open>work_loop\<close> runs on its own thread while other threads call \<open>schedule_image\<close> and
  \<open>unload_image\<close>. The model is a transition system whose steps are the pieces of code
  that run without another thread in between: a call that holds \<open>scheduled_images_lock_\<close>
  for its whole body, a call on one image, one read of the stop token. \<open>worker_loc\<close> is
  the place in \<open>work_loop\<close> the worker has reached:
  \<^item> \<open>Poll\<close>: at the head of the inner \<open>while (!stoken.stop_requested())\<close>;
  \<^item> \<open>Dequeued img\<close>: \<open>next_scheduled_image()\<close> returned \<open>img\<close>;
  \<^item> \<open>Loading img\<close>: inside \<open>img->load()\<close>;
  \<^item> \<open>Post_load img\<close>: \<open>load()\<close> returned, about to take \<open>scheduled_images_lock_\<close>;
  \<^item> \<open>Check_stop\<close>: the inner loop was left, at \<open>if (stoken.stop_requested()) break\<close>;
  \<^item> \<open>Waiting\<close>: blocked in \<open>worker_wakeup_.wait(notify_lock)\<close>;
  \<^item> \<open>Exited\<close>: \<open>work_loop\<close> returned.
\<close>

datatype 'i worker_loc =
  Poll | Dequeued 'i | Loading 'i | Post_load 'i | Check_stop | Waiting | Exited

record 'i source_state =
  sched :: "'i scheduler"
  images :: "'i \<Rightarrow> image_state"
  worker :: "'i worker_loc"
  stop_requested :: bool

text \<open>
  One step of the worker. \<open>ok\<close> is the outcome of the decode and is read only by the step
  that ends \<open>load()\<close>. A step from \<open>Waiting\<close> is the return of \<open>wait\<close> (after a
  \<open>notify_one\<close> or spuriously); a worker that is never woken takes no step.
\<close>

definition worker_step :: "(image_state \<Rightarrow> bool) \<Rightarrow> bool \<Rightarrow> 'i source_state \<Rightarrow> 'i source_state" where
  "worker_step valid ok st =
     (case worker st of
        Poll \<Rightarrow>
          if stop_requested st then st\<lparr>worker := Check_stop\<rparr>
          else (case next_scheduled_image (sched st) of
                  (None, s') \<Rightarrow> st\<lparr>sched := s', worker := Check_stop\<rparr>
                | (Some img, s') \<Rightarrow> st\<lparr>sched := s', worker := Dequeued img\<rparr>)
      | Dequeued img \<Rightarrow>
          if \<not> valid (images st img)
          then st\<lparr>images := load_begin img (images st), worker := Loading img\<rparr>
          else st\<lparr>worker := Poll\<rparr>
      | Loading img \<Rightarrow>
          st\<lparr>images := load_end ok img (images st), worker := Post_load img\<rparr>
      | Post_load img \<Rightarrow>
          st\<lparr>images :=
               (if img \<in> set (unscheduled_images (sched st))
                then clear img (images st) else images st),
             sched := (sched st)\<lparr>unscheduled_images := []\<rparr>,
             worker := Poll\<rparr>
      | Check_stop \<Rightarrow>
          if stop_requested st then st\<lparr>worker := Exited\<rparr> else st\<lparr>worker := Waiting\<rparr>
      | Waiting \<Rightarrow> st\<lparr>worker := Poll\<rparr>
      | Exited \<Rightarrow> st)"

text \<open>
  What the threads do, one event per step. \<open>unload_image\<close> is \<open>Call_unschedule\<close> followed
  by \<open>Call_clear\<close>: it takes the lock only inside \<open>unschedule_image\<close>. \<open>Request_stop\<close> is
  \<open>worker_thread_.request_stop()\<close> in the destructor.
\<close>

datatype 'i event =
    Call_schedule 'i nat
  | Call_unschedule 'i
  | Call_clear 'i
  | Request_stop
  | Worker bool

fun step :: "'i sorter \<Rightarrow> (image_state \<Rightarrow> bool) \<Rightarrow> 'i event \<Rightarrow> 'i source_state \<Rightarrow> 'i source_state" where
  "step srt valid (Call_schedule img priority) st =
     st\<lparr>sched := schedule_image srt img priority (sched st)\<rparr>"
| "step srt valid (Call_unschedule img) st = st\<lparr>sched := unschedule_image img (sched st)\<rparr>"
| "step srt valid (Call_clear img) st = st\<lparr>images := clear img (images st)\<rparr>"
| "step srt valid Request_stop st = st\<lparr>stop_requested := True\<rparr>"
| "step srt valid (Worker ok) st = worker_step valid ok st"

fun run :: "'i sorter \<Rightarrow> (image_state \<Rightarrow> bool) \<Rightarrow> 'i event list \<Rightarrow> 'i source_state \<Rightarrow> 'i source_state" where
  "run srt valid [] st = st"
| "run srt valid (e # es) st = run srt valid es (step srt valid e st)"

text \<open>The state the constructor leaves: nothing queued, the worker entering its loop.\<close>

definition initial_state :: "'i source_state" where
  "initial_state =
     \<lparr>sched = empty_scheduler, images = (\<lambda>_. unloaded), worker = Poll, stop_requested = False\<rparr>"

fun is_worker :: "'i event \<Rightarrow> bool" where
  "is_worker (Worker ok) = True"
| "is_worker _ = False"

fun schedules :: "'i \<Rightarrow> 'i event \<Rightarrow> bool" where
  "schedules img (Call_schedule j priority) = (j = img)"
| "schedules img _ = False"

text \<open>
  The load of \<open>img\<close> is in flight and \<open>img\<close> carries a drop mark; and, afterwards, the
  worker is done with \<open>img\<close> and the payload is gone.
\<close>

definition in_flight :: "'i \<Rightarrow> 'i source_state \<Rightarrow> bool" where
  "in_flight img st \<longleftrightarrow> worker st = Loading img \<or> worker st = Post_load img"

definition queued :: "'i \<Rightarrow> 'i source_state \<Rightarrow> bool" where
  "queued img st \<longleftrightarrow> find_entry img (scheduled_images (sched st)) \<noteq> None"

definition marked :: "'i \<Rightarrow> 'i source_state \<Rightarrow> bool" where
  "marked img st \<longleftrightarrow> img \<in> set (unscheduled_images (sched st))"

definition dropped :: "'i \<Rightarrow> 'i source_state \<Rightarrow> bool" where
  "dropped img st \<longleftrightarrow>
     images st img = unloaded \<and> \<not> queued img st \<and>
     worker st \<noteq> Dequeued img \<and> worker st \<noteq> Loading img \<and> worker st \<noteq> Post_load img"

text \<open>The invariant that carries a drop mark to the end of the load.\<close>

definition drop_inv :: "'i \<Rightarrow> 'i source_state \<Rightarrow> bool" where
  "drop_inv img st \<longleftrightarrow>
     \<not> queued img st \<and> ((in_flight img st \<and> marked img st) \<or> dropped img st)"

text \<open>How many steps of the worker are left until it is done with the load of \<open>img\<close>.\<close>

definition steps_left :: "'i \<Rightarrow> 'i source_state \<Rightarrow> nat" where
  "steps_left img st =
     (if worker st = Loading img then 2 else if worker st = Post_load img then 1 else 0)"

section \<open>Filesystem events and the file list\<close>

text \<open>
  Modelled from the spec: \<open>fs_watcher\<close> (its header is not among the sources). Its
  callback carries one of three actions; the watcher holds a set of watched paths,
  \<open>unwatch()\<close> drops every watch and \<open>watch(paths)\<close> adds the given ones. The calls are
  logged as well, so that their order can be read off.
\<close>

datatype action = created | modified | removed

datatype 'p watcher_call = Unwatch | Watch "'p list"

record 'p fs_watcher =
  watched :: "'p list"
  calls :: "'p watcher_call list"

definition unwatch :: "'p fs_watcher \<Rightarrow> 'p fs_watcher" where
  "unwatch w = \<lparr>watched = [], calls = calls w @ [Unwatch]\<rparr>"

definition watch :: "'p list \<Rightarrow> 'p fs_watcher \<Rightarrow> 'p fs_watcher" where
  "watch files w = \<lparr>watched = watched w @ files, calls = calls w @ [Watch files]\<rparr>"

text \<open>
  The kinds of pending navigation that this file assigns to \<open>change_\<close>
  (\<open>image_change\<close> is declared in a header that is not among the sources).
\<close>

datatype image_change = "next" | previous | reload | replace_deleted

text \<open>
  \<open>image_cache\<close> is not among the sources either. Its member functions that
  \<open>image_source\<close> calls are the fields of \<open>cache_ops\<close>, over an arbitrary type \<open>'c\<close> of
  cache states, together with \<open>image::path()\<close>; \<open>current()\<close> returns a \<open>shared_ptr\<close> that
  may be empty (\<open>None\<close>).
\<close>

record ('c, 'p, 'i) cache_ops =
  cache_current :: "'c \<Rightarrow> 'i option"
  cache_add :: "'p \<Rightarrow> 'c \<Rightarrow> 'c"
  cache_remove :: "'p \<Rightarrow> 'c \<Rightarrow> 'c"
  cache_set :: "'p list \<Rightarrow> 'c \<Rightarrow> 'c"
  cache_invalidate_current :: "'c \<Rightarrow> 'c"
  cache_invalidate_all :: "'c \<Rightarrow> 'c"
  image_path :: "'i \<Rightarrow> 'p"

text \<open>
  The calls into \<open>std::filesystem\<close> that \<open>list_files\<close> makes. They are taken to return:
  an exception thrown by one of them leaves \<open>populate_cache\<close> before the cache or the
  watcher is touched.
\<close>

record 'p filesystem =
  is_directory :: "'p \<Rightarrow> bool"
  directory_iterator :: "'p \<Rightarrow> 'p list"
  absolute :: "'p \<Rightarrow> 'p"

text \<open>The members of \<open>image_source\<close> guarded by \<open>cache_mutex_\<close>, and the watcher.\<close>

record ('c, 'p, 'i) image_source =
  cache :: 'c
  backup :: "'i option"
  change :: image_change
  startup_files :: "'p list"
  filesystem_watcher :: "'p fs_watcher"

definition is_current :: "('c, 'p, 'i) cache_ops \<Rightarrow> 'p \<Rightarrow> 'i option \<Rightarrow> bool" where
  "is_current C path img = (case img of None \<Rightarrow> False | Some i \<Rightarrow> image_path C i = path)"

definition file_event ::
  "('c, 'p, 'i) cache_ops \<Rightarrow> 'p \<Rightarrow> action \<Rightarrow> ('c, 'p, 'i) image_source \<Rightarrow> ('c, 'p, 'i) image_source" where
  "file_event C path act st =
     (let is_cur = is_current C path (cache_current C (cache st)) in
      if act = removed then
        (let st1 = (if is_cur
                    then st\<lparr>backup := cache_current C (cache st), change := replace_deleted\<rparr>
                    else st)
         in st1\<lparr>cache := cache_remove C path (cache st1)\<rparr>)
      else if is_cur then
        (let st1 = st\<lparr>backup := cache_current C (cache st), change := reload\<rparr>
         in st1\<lparr>cache := cache_invalidate_current C (cache st1)\<rparr>)
      else st\<lparr>cache := cache_add C path (cache st)\<rparr>)"

text \<open>
  \<open>list_files\<close>: a directory contributes itself and the absolute paths of its entries
  that are not directories, any other path its absolute path. Paths are totally ordered
  and equal paths cannot be told apart, so \<open>std::ranges::sort\<close> with
  \<open>std::ranges::greater\<close> has one possible result, the descending list; \<open>std::ranges::unique\<close>
  with \<open>erase\<close> then drops adjacent repetitions.
\<close>

definition list_entry :: "'p filesystem \<Rightarrow> 'p \<Rightarrow> 'p list" where
  "list_entry F p =
     (if is_directory F p
      then p # map (absolute F) (filter (\<lambda>q. \<not> is_directory F q) (directory_iterator F p))
      else [absolute F p])"

definition list_files :: "('p::linorder) filesystem \<Rightarrow> 'p list \<Rightarrow> 'p list" where
  "list_files F initializer = remdups_adj (rev (sort (concat (map (list_entry F) initializer))))"

text \<open>\<open>watch_fs\<close> is \<open>global_config().watch_fs\<close>.\<close>

definition populate_cache ::
  "('p::linorder) filesystem \<Rightarrow> ('c, 'p, 'i) cache_ops \<Rightarrow> bool \<Rightarrow>
   ('c, 'p, 'i) image_source \<Rightarrow> ('c, 'p, 'i) image_source" where
  "populate_cache F C watch_fs st =
     (let files = list_files F (startup_files st);
          st1 = st\<lparr>cache := cache_set C files (cache st)\<rparr>
      in if watch_fs
         then st1\<lparr>filesystem_watcher := watch files (unwatch (filesystem_watcher st1))\<rparr>
         else st1)"

definition reload_file_list ::
  "('p::linorder) filesystem \<Rightarrow> ('c, 'p, 'i) cache_ops \<Rightarrow> bool \<Rightarrow>
   ('c, 'p, 'i) image_source \<Rightarrow> ('c, 'p, 'i) image_source" where
  "reload_file_list F C watch_fs st =
     populate_cache F C watch_fs
       (st\<lparr>backup := cache_current C (cache st), change := reload,
           cache := cache_invalidate_all C (cache st)\<rparr>)"

text \<open>
  Modelled from the spec: \<open>image_cache\<close>, for evaluating \<open>file_event\<close> and
  \<open>populate_cache\<close> at concrete inputs. The collection is a sequence of paths sorted
  descending without repetition and a cursor on at most one of them; an image is
  identified by its path. \<open>add\<close> inserts a path that is absent and leaves the cursor;
  \<open>remove\<close> removes a path and clears the cursor if it was current; \<open>set\<close> replaces the
  sequence by the sorted paths without repetition and keeps the cursor only if its path
  is among them; the two invalidations change the state of images, not the collection.
\<close>

record 'p spec_cache =
  entries :: "'p list"
  cursor :: "'p option"

definition spec_cache_ops :: "(('p::linorder) spec_cache, 'p, 'p) cache_ops" where
  "spec_cache_ops =
     \<lparr>cache_current = cursor,
      cache_add = (\<lambda>p c. if p \<in> set (entries c) then c
                           else c\<lparr>entries := rev (sort (p # entries c))\<rparr>),
      cache_remove = (\<lambda>p c. c\<lparr>entries := removeAll p (entries c),
                               cursor := (if cursor c = Some p then None else cursor c)\<rparr>),
      cache_set = (\<lambda>ps c. \<lparr>entries = remdups_adj (rev (sort ps)),
                             cursor = (case cursor c of
                                         None \<Rightarrow> None
                                       | Some p \<Rightarrow> if p \<in> set ps then Some p else None)\<rparr>),
      cache_invalidate_current = (\<lambda>c. c),
      cache_invalidate_all = (\<lambda>c. c),
      image_path = (\<lambda>i. i)\<rparr>"

section \<open>Properties of the sorts\<close>

lemma mset_insert_before: "mset (insert_before e es) = add_mset e (mset es)"
  by (induction es) auto

lemma mset_stable_sort: "mset (stable_sort es) = mset es"
  by (induction es) (auto simp: mset_insert_before)

lemma set_insert_before: "set (insert_before e es) = insert e (set es)"
  by (induction es) auto

lemma prio_sorted_insert_before:
  "prio_sorted es \<Longrightarrow> prio_sorted (insert_before e es)"
  by (induction es) (auto simp: prio_sorted_def set_insert_before)

lemma prio_sorted_stable_sort: "prio_sorted (stable_sort es)"
  by (induction es) (auto simp: prio_sorted_insert_before, simp add: prio_sorted_def)

lemma sort_contract_stable_sort: "sort_contract stable_sort"
  by (simp add: sort_contract_def mset_stable_sort prio_sorted_stable_sort)



subsection \<open>The insertion sort of the library is a stable sort\<close>

lemma mset_unguarded_linear_insert:
  "mset (unguarded_linear_insert v rps) = add_mset v (mset rps)"
  by (induction rps) auto

lemma set_unguarded_linear_insert:
  "set (unguarded_linear_insert v rps) = insert v (set rps)"
  by (induction rps) auto

lemma ascending_unguarded_linear_insert:
  "sorted_wrt (\<lambda>a b. fst a \<le> fst b) rps \<Longrightarrow>
   sorted_wrt (\<lambda>a b. fst a \<le> fst b) (unguarded_linear_insert v rps)"
  by (induction rps) (auto simp: greater_first_def set_unguarded_linear_insert)

lemma filter_unguarded_linear_insert:
  "filter (\<lambda>e. fst e = k) (rev (unguarded_linear_insert v rps))
     = filter (\<lambda>e. fst e = k) (rev rps @ [v])"
  by (induction rps) (auto simp: greater_first_def)

lemma ascending_last_greatest:
  "sorted_wrt (\<lambda>a b. fst a \<le> fst b) (rps :: 'i prio_shared_image list) \<Longrightarrow>
   x \<in> set rps \<Longrightarrow> fst x \<le> fst (last rps)"
  by (induction rps) auto

text \<open>One round of \<open>__insertion_sort\<close>, on the sorted prefix held in reverse.\<close>

lemma insertion_step:
  assumes "sorted_wrt (\<lambda>a b. fst a \<le> fst b) rps" and "rps \<noteq> []"
  shows "sorted_wrt (\<lambda>a b. fst a \<le> fst b)
           (if greater_first v (last rps) then rps @ [v] else unguarded_linear_insert v rps)"
    and "(if greater_first v (last rps) then rps @ [v] else unguarded_linear_insert v rps) \<noteq> []"
    and "mset (if greater_first v (last rps) then rps @ [v] else unguarded_linear_insert v rps)
           = add_mset v (mset rps)"
    and "filter (\<lambda>e. fst e = k)
           (rev (if greater_first v (last rps) then rps @ [v] else unguarded_linear_insert v rps))
           = filter (\<lambda>e. fst e = k) (rev rps @ [v])"
proof -
  show "(if greater_first v (last rps) then rps @ [v] else unguarded_linear_insert v rps) \<noteq> []"
    by (cases rps) auto
  show "mset (if greater_first v (last rps) then rps @ [v] else unguarded_linear_insert v rps)
          = add_mset v (mset rps)"
    by (simp add: mset_unguarded_linear_insert)
  have below: "\<forall>x\<in>set rps. fst x < fst v" if "greater_first v (last rps)"
  proof
    fix x assume "x \<in> set rps"
    then have "fst x \<le> fst (last rps)" using assms(1) by (rule ascending_last_greatest[rotated])
    with that show "fst x < fst v" by (simp add: greater_first_def)
  qed
  show "sorted_wrt (\<lambda>a b. fst a \<le> fst b)
           (if greater_first v (last rps) then rps @ [v] else unguarded_linear_insert v rps)"
  proof (cases "greater_first v (last rps)")
    case True
    with below assms(1) show ?thesis by (auto simp: sorted_wrt_append)
  next
    case False
    with assms(1) show ?thesis by (simp add: ascending_unguarded_linear_insert)
  qed
  show "filter (\<lambda>e. fst e = k)
           (rev (if greater_first v (last rps) then rps @ [v] else unguarded_linear_insert v rps))
           = filter (\<lambda>e. fst e = k) (rev rps @ [v])"
  proof (cases "greater_first v (last rps)")
    case True
    from below[OF True] have "fst v = k \<Longrightarrow> filter (\<lambda>e. fst e = k) (rev rps) = []"
      by (auto simp: filter_empty_conv)
    with True show ?thesis by auto
  next
    case False
    then show ?thesis by (simp add: filter_unguarded_linear_insert del: rev_append)
  qed
qed

lemma mset_insertion_loop:
  "sorted_wrt (\<lambda>a b. fst a \<le> fst b) rps \<Longrightarrow> rps \<noteq> [] \<Longrightarrow>
   mset (insertion_loop rps rest) = mset rps + mset rest"
proof (induction rest arbitrary: rps)
  case Nil
  then show ?case by simp
next
  case (Cons v rest)
  from Cons.IH[OF insertion_step(1,2)[OF Cons.prems, of v]] insertion_step(3)[OF Cons.prems, of v]
  show ?case by simp
qed

lemma prio_sorted_insertion_loop:
  "sorted_wrt (\<lambda>a b. fst a \<le> fst b) rps \<Longrightarrow> rps \<noteq> [] \<Longrightarrow>
   prio_sorted (insertion_loop rps rest)"
proof (induction rest arbitrary: rps)
  case Nil
  then show ?case by (simp add: prio_sorted_def sorted_wrt_rev)
next
  case (Cons v rest)
  from Cons.IH[OF insertion_step(1,2)[OF Cons.prems, of v]] show ?case by simp
qed

lemma filter_insertion_loop:
  "sorted_wrt (\<lambda>a b. fst a \<le> fst b) rps \<Longrightarrow> rps \<noteq> [] \<Longrightarrow>
   filter (\<lambda>e. fst e = k) (insertion_loop rps rest) = filter (\<lambda>e. fst e = k) (rev rps @ rest)"
proof (induction rest arbitrary: rps)
  case Nil
  then show ?case by simp
next
  case (Cons v rest)
  from Cons.IH[OF insertion_step(1,2)[OF Cons.prems, of v]]
    insertion_step(4)[OF Cons.prems, of k v]
  show ?case by simp
qed

lemma mset_insertion_sort: "mset (insertion_sort es) = mset es"
  by (cases es) (simp_all add: mset_insertion_loop)

lemma prio_sorted_insertion_sort: "prio_sorted (insertion_sort es)"
  by (cases es) (simp_all add: prio_sorted_insertion_loop, simp add: prio_sorted_def)

lemma filter_insertion_sort:
  "filter (\<lambda>e. fst e = k) (insertion_sort es) = filter (\<lambda>e. fst e = k) es"
  by (cases es) (simp_all add: filter_insertion_loop)

lemma sort_contract_insertion_sort: "sort_contract insertion_sort"
  by (simp add: sort_contract_def mset_insertion_sort prio_sorted_insertion_sort)

lemma sort_stable_insertion_sort: "sort_stable insertion_sort"
  by (simp add: sort_stable_def filter_insertion_sort)


section \<open>Properties of the scheduler\<close>

lemma find_entry_None: "find_entry img es = None \<longleftrightarrow> img \<notin> snd ` set es"
  by (induction es) (auto simp: find_entry_def)

lemma find_entry_Some: "find_entry img es = Some e \<Longrightarrow> e \<in> set es \<and> snd e = img"
  by (induction es) (auto simp: find_entry_def split: if_splits)

lemma map_snd_set_priority: "map snd (set_priority img p es) = map snd es"
  by (induction es) auto

lemma filter_others_set_priority:
  "filter (\<lambda>e. snd e \<noteq> img) (set_priority img p es) = filter (\<lambda>e. snd e \<noteq> img) es"
  by (induction es) auto

lemma mset_set_priority:
  "find_entry img es = Some e \<Longrightarrow>
   mset (set_priority img p es) = add_mset (p, img) (mset es - {#e#})"
proof (induction es)
  case Nil
  then show ?case by (simp add: find_entry_def)
next
  case (Cons a es)
  show ?case
  proof (cases "snd a = img")
    case True
    with Cons.prems show ?thesis by (simp add: find_entry_def)
  next
    case False
    with Cons.prems have f: "find_entry img es = Some e" by (simp add: find_entry_def)
    then have "e \<in># mset es" using find_entry_Some[of img es e] by simp
    with False Cons.IH[OF f] show ?thesis by simp
  qed
qed


lemma set_erase_entry:
  "distinct (map snd es) \<Longrightarrow> snd ` set (erase_entry img es) = snd ` set es - {img}"
  by (induction es) (auto simp: image_iff)

lemma erase_entry_subset: "set (erase_entry img es) \<subseteq> set es"
  by (induction es) auto

lemma distinct_erase_entry:
  "distinct (map snd es) \<Longrightarrow> distinct (map snd (erase_entry img es))"
proof (induction es)
  case Nil
  then show ?case by simp
next
  case (Cons a es)
  have "snd a \<notin> snd ` set es \<Longrightarrow> snd a \<notin> snd ` set (erase_entry img es)"
    using erase_entry_subset[of img es] by blast
  with Cons show ?case by auto
qed

lemma prio_sorted_erase_entry: "prio_sorted es \<Longrightarrow> prio_sorted (erase_entry img es)"
proof (induction es)
  case Nil
  then show ?case by simp
next
  case (Cons a es)
  have "\<forall>b\<in>set es. fst b \<le> fst a \<Longrightarrow> \<forall>b\<in>set (erase_entry img es). fst b \<le> fst a"
    using erase_entry_subset[of img es] by blast
  with Cons show ?case by (auto simp: prio_sorted_def)
qed

lemma mset_erase_entry:
  "find_entry img es = Some e \<Longrightarrow> mset (erase_entry img es) = mset es - {#e#}"
proof (induction es)
  case Nil
  then show ?case by (simp add: find_entry_def)
next
  case (Cons a es)
  show ?case
  proof (cases "snd a = img")
    case True
    with Cons.prems show ?thesis by (simp add: find_entry_def)
  next
    case False
    with Cons.prems have f: "find_entry img es = Some e" by (simp add: find_entry_def)
    then have "e \<in># mset es" using find_entry_Some[of img es e] by simp
    with False Cons.IH[OF f] show ?thesis by simp
  qed
qed

lemma set_swap_remove:
  "distinct xs \<Longrightarrow> set (swap_remove img xs) = set xs - {img}"
proof (induction xs)
  case Nil
  then show ?case by simp
next
  case (Cons y ys)
  show ?case
  proof (cases "y = img")
    case True
    have "ys \<noteq> [] \<Longrightarrow> insert (last ys) (set (butlast ys)) = set ys"
      by (metis append_butlast_last_id list.simps(15) rotate1.simps(2) set_rotate1)
    with True Cons.prems show ?thesis by auto
  next
    case False
    with Cons show ?thesis by auto
  qed
qed

lemma distinct_swap_remove: "distinct xs \<Longrightarrow> distinct (swap_remove img xs)"
proof (induction xs)
  case Nil
  then show ?case by simp
next
  case (Cons y ys)
  show ?case
  proof (cases "y = img")
    case True
    have "ys \<noteq> [] \<Longrightarrow> distinct ys \<Longrightarrow> distinct (last ys # butlast ys)"
      by (metis append_butlast_last_id distinct1_rotate rotate1.simps(2))
    with True Cons.prems show ?thesis by auto
  next
    case False
    with Cons set_swap_remove[of ys img] show ?thesis by auto
  qed
qed

lemma mset_swap_remove: "img \<in> set xs \<Longrightarrow> mset (swap_remove img xs) = mset xs - {#img#}"
proof (induction xs)
  case Nil
  then show ?case by simp
next
  case (Cons y ys)
  show ?case
  proof (cases "y = img")
    case True
    have "ys \<noteq> [] \<Longrightarrow> add_mset (last ys) (mset (butlast ys)) = mset ys"
      by (metis append_butlast_last_id mset.simps(2) union_mset_add_mset_right mset_append self_append_conv)
    with True show ?thesis by auto
  next
    case False
    with Cons show ?thesis by auto
  qed
qed

lemma sort_contract_mset: "sort_contract srt \<Longrightarrow> mset (srt es) = mset es"
  by (simp add: sort_contract_def)

lemma sort_contract_sorted: "sort_contract srt \<Longrightarrow> prio_sorted (srt es)"
  by (simp add: sort_contract_def)

lemma sort_contract_set: "sort_contract srt \<Longrightarrow> set (srt es) = set es"
  by (metis sort_contract_mset set_mset_mset)

lemma sort_contract_distinct:
  assumes "sort_contract srt"
  shows "distinct (map snd (srt es)) = distinct (map snd es)"
proof -
  have "mset (map snd (srt es)) = mset (map snd es)"
    using sort_contract_mset[OF assms, of es] by (metis mset_map)
  then show ?thesis by (rule mset_eq_imp_distinct_iff)
qed


lemma erase_entry_filter:
  "distinct (map snd es) \<Longrightarrow> erase_entry img es = filter (\<lambda>e. snd e \<noteq> img) es"
proof (induction es)
  case Nil
  then show ?case by simp
next
  case (Cons a es)
  show ?case
  proof (cases "snd a = img")
    case True
    with Cons.prems have "\<forall>e\<in>set es. snd e \<noteq> img" by (auto simp: image_iff)
    then have "filter (\<lambda>e. snd e \<noteq> img) es = es" by (simp add: filter_id_conv)
    with True show ?thesis by simp
  next
    case False
    with Cons show ?thesis by simp
  qed
qed

lemma purge_set:
  "distinct U \<Longrightarrow>
   set (if img \<in> set U then swap_remove img U else U) = set U - {img}"
  by (simp add: set_swap_remove)

lemma purge_distinct:
  "distinct U \<Longrightarrow> distinct (if img \<in> set U then swap_remove img U else U)"
  by (simp add: distinct_swap_remove)

lemma sched_inv_sort_and_purge:
  assumes srt: "sort_contract srt"
    and d: "distinct (map snd es)"
    and inv: "sched_inv s"
    and disj: "(snd ` set es - {img}) \<inter> set (unscheduled_images s) = {}"
  shows "sched_inv (sort_and_purge srt img es s)"
proof -
  from inv have dU: "distinct (unscheduled_images s)" by (simp add: sched_inv_def)
  have 1: "prio_sorted (srt es)" using srt by (rule sort_contract_sorted)
  have 2: "distinct (map snd (srt es))" using d sort_contract_distinct[OF srt] by simp
  have 3: "snd ` set (srt es) = snd ` set es" using sort_contract_set[OF srt] by simp
  from disj have 4: "snd ` set es \<inter> (set (unscheduled_images s) - {img}) = {}" by blast
  show ?thesis
    unfolding sched_inv_def sort_and_purge_def
    using 1 2 3 4 purge_set[OF dU, of img] purge_distinct[OF dU, of img] by simp
qed

lemma sched_inv_schedule_image:
  assumes srt: "sort_contract srt" and inv: "sched_inv s"
  shows "sched_inv (schedule_image srt img p s)"
proof (cases "find_entry img (scheduled_images s)")
  case None
  then have n: "img \<notin> snd ` set (scheduled_images s)" by (simp add: find_entry_None)
  from inv n have d: "distinct (map snd (scheduled_images s @ [(p, img)]))"
    by (simp add: sched_inv_def)
  from inv have "(snd ` set (scheduled_images s @ [(p, img)]) - {img}) \<inter> set (unscheduled_images s) = {}"
    by (auto simp: sched_inv_def)
  from sched_inv_sort_and_purge[OF srt d inv this] None show ?thesis
    by (simp add: schedule_image_def)
next
  case (Some e)
  from inv have d: "distinct (map snd (set_priority img p (scheduled_images s)))"
    by (simp add: sched_inv_def map_snd_set_priority)
  have "snd ` set (set_priority img p (scheduled_images s)) = snd ` set (scheduled_images s)"
    by (metis map_snd_set_priority set_map)
  with inv have "(snd ` set (set_priority img p (scheduled_images s)) - {img}) \<inter> set (unscheduled_images s) = {}"
    by (auto simp: sched_inv_def)
  from sched_inv_sort_and_purge[OF srt d inv this] Some inv show ?thesis
    by (simp add: schedule_image_def)
qed

lemma sched_inv_unschedule_image:
  assumes inv: "sched_inv s"
  shows "sched_inv (unschedule_image img s)"
proof (cases "find_entry img (scheduled_images s)")
  case None
  then have "img \<notin> snd ` set (scheduled_images s)" by (simp add: find_entry_None)
  with inv None show ?thesis by (auto simp: unschedule_image_def sched_inv_def)
next
  case (Some e)
  have "snd ` set (erase_entry img (scheduled_images s)) \<subseteq> snd ` set (scheduled_images s)"
    using erase_entry_subset[of img "scheduled_images s"] by blast
  with inv Some show ?thesis
    by (auto simp: unschedule_image_def sched_inv_def prio_sorted_erase_entry distinct_erase_entry)
qed

lemma prio_sorted_butlast: "prio_sorted es \<Longrightarrow> prio_sorted (butlast es)"
  unfolding prio_sorted_def by (induction es) (auto dest: in_set_butlastD)

lemma sched_inv_next_scheduled_image:
  assumes inv: "sched_inv s"
  shows "sched_inv (snd (next_scheduled_image s))"
proof -
  have "snd ` set (butlast (scheduled_images s)) \<subseteq> snd ` set (scheduled_images s)"
    by (auto dest: in_set_butlastD)
  with inv show ?thesis
    by (auto simp: next_scheduled_image_def sched_inv_def prio_sorted_butlast
        distinct_butlast map_butlast)
qed

lemma sched_inv_step:
  "sort_contract srt \<Longrightarrow> sched_inv s \<Longrightarrow> sched_inv (sched_step srt c s)"
  by (cases c)
    (simp_all add: sched_inv_schedule_image sched_inv_unschedule_image
      sched_inv_next_scheduled_image)

lemma sched_inv_run:
  "sort_contract srt \<Longrightarrow> sched_inv s \<Longrightarrow> sched_inv (sched_run srt cs s)"
  by (induction cs arbitrary: s) (simp_all add: sched_inv_step)

lemma sched_inv_empty: "sched_inv empty_scheduler"
  by (simp add: sched_inv_def empty_scheduler_def prio_sorted_def)

lemma schedule_image_queued:
  assumes "sort_contract srt"
  shows "img \<in> snd ` set (scheduled_images (schedule_image srt img p s))"
proof (cases "find_entry img (scheduled_images s)")
  case None
  then show ?thesis
    by (simp add: schedule_image_def sort_and_purge_def sort_contract_set[OF assms])
next
  case (Some e)
  then have "img \<in> snd ` set (scheduled_images s)"
    by (metis find_entry_None option.distinct(1))
  moreover have "snd ` set (set_priority img p (scheduled_images s)) = snd ` set (scheduled_images s)"
    by (metis map_snd_set_priority set_map)
  ultimately show ?thesis using Some
    by (simp add: schedule_image_def sort_and_purge_def sort_contract_set[OF assms])
qed

lemma unschedule_image_not_queued:
  assumes "distinct (map snd (scheduled_images s))"
  shows "img \<notin> snd ` set (scheduled_images (unschedule_image img s))"
proof (cases "find_entry img (scheduled_images s)")
  case None
  then have "img \<notin> snd ` set (scheduled_images s)" by (simp add: find_entry_None)
  with None show ?thesis by (simp add: unschedule_image_def)
next
  case (Some e)
  with set_erase_entry[OF assms, of img] show ?thesis by (simp add: unschedule_image_def)
qed

section \<open>Claims about the scheduler\<close>

text \<open>
  C1 (as the code has it). \<open>next_scheduled_image\<close> on an empty queue returns the empty
  pointer and leaves the scheduler as it was. On a non-empty queue that is sorted by
  priority descending (as it is in every state a run reaches, \<open>sched_inv_run\<close>) it
  removes the last entry and returns its image, and the priority of that entry is the
  least of all queued priorities; the unscheduled set is not touched.
\<close>

theorem next_scheduled_image_pops_least_priority:
  "(scheduled_images s = [] \<longrightarrow> next_scheduled_image s = (None, s)) \<and>
   (scheduled_images s \<noteq> [] \<and> prio_sorted (scheduled_images s) \<longrightarrow>
      (\<exists>p img.
         fst (next_scheduled_image s) = Some img \<and>
         scheduled_images s = scheduled_images (snd (next_scheduled_image s)) @ [(p, img)] \<and>
         unscheduled_images (snd (next_scheduled_image s)) = unscheduled_images s \<and>
         (\<forall>e\<in>set (scheduled_images s). p \<le> fst e)))"
proof (intro conjI impI)
  assume "scheduled_images s = []"
  then show "next_scheduled_image s = (None, s)" by (simp add: next_scheduled_image_def)
next
  assume a: "scheduled_images s \<noteq> [] \<and> prio_sorted (scheduled_images s)"
  define p where "p = fst (last (scheduled_images s))"
  define img where "img = snd (last (scheduled_images s))"
  from a have split: "scheduled_images s = butlast (scheduled_images s) @ [(p, img)]"
    by (simp add: p_def img_def)
  from a have "sorted_wrt (\<lambda>a b. fst b \<le> fst a) (butlast (scheduled_images s) @ [(p, img)])"
    using split by (simp add: prio_sorted_def)
  then have "\<forall>e\<in>set (butlast (scheduled_images s)). p \<le> fst e"
    by (simp add: sorted_wrt_append)
  then have least: "\<forall>e\<in>set (scheduled_images s). p \<le> fst e"
    using split by (metis fst_conv order_refl rotate1.simps(2) set_ConsD set_rotate1)
  from a split least show "\<exists>p img.
         fst (next_scheduled_image s) = Some img \<and>
         scheduled_images s = scheduled_images (snd (next_scheduled_image s)) @ [(p, img)] \<and>
         unscheduled_images (snd (next_scheduled_image s)) = unscheduled_images s \<and>
         (\<forall>e\<in>set (scheduled_images s). p \<le> fst e)"
    by (intro exI[of _ p] exI[of _ img]) (simp add: next_scheduled_image_def img_def)
qed

theorem next_scheduled_image_pops_least_priority_witness:
  "next_scheduled_image empty_scheduler = (None, (empty_scheduler :: nat scheduler)) \<and>
   (\<exists>p img.
      fst (next_scheduled_image \<lparr>scheduled_images = [(5, 0::nat), (1, 1)], unscheduled_images = []\<rparr>)
        = Some img \<and>
      [(5, 0), (1, 1)] =
        scheduled_images (snd (next_scheduled_image
          \<lparr>scheduled_images = [(5, 0::nat), (1, 1)], unscheduled_images = []\<rparr>)) @ [(p, img)] \<and>
      (\<forall>e\<in>set [(5::nat, 0::nat), (1, 1)]. p \<le> fst e))"
  using next_scheduled_image_pops_least_priority
          [of "\<lparr>scheduled_images = [(5, 0::nat), (1, 1)], unscheduled_images = []\<rparr>"]
        next_scheduled_image_pops_least_priority [of "empty_scheduler :: nat scheduler"]
  by (simp add: prio_sorted_def empty_scheduler_def)

text \<open>
  C1 as stated fails. After \<open>schedule_image(a, 5)\<close> and \<open>schedule_image(b, 1)\<close> on an
  empty scheduler the queue is \<open>[(5, a), (1, b)]\<close>; \<open>next_scheduled_image\<close> returns \<open>b\<close>,
  whose priority 1 is not the maximum 5.
\<close>

theorem next_scheduled_image_not_highest_priority:
  "scheduled_images
     (schedule_image stable_sort (1::nat) 1 (schedule_image stable_sort 0 5 empty_scheduler))
     = [(5, 0), (1, 1)] \<and>
   fst (next_scheduled_image
     (schedule_image stable_sort (1::nat) 1 (schedule_image stable_sort 0 5 empty_scheduler)))
     = Some 1 \<and>
   Max (fst ` set [(5::nat, 0::nat), (1, 1)]) = 5"
  by (simp add: schedule_image_def sort_and_purge_def find_entry_def empty_scheduler_def
      next_scheduled_image_def)

text \<open>
  C3. In every state reached from the empty scheduler by calls of \<open>schedule_image\<close>,
  \<open>unschedule_image\<close> and \<open>next_scheduled_image\<close>, no image is both queued and in the
  unscheduled set. A further \<open>schedule_image\<close> leaves its image queued and not
  unscheduled; a further \<open>unschedule_image\<close> leaves its image not queued.
\<close>

theorem queue_and_unscheduled_disjoint:
  assumes "sort_contract srt"
  shows "snd ` set (scheduled_images (sched_run srt cs empty_scheduler)) \<inter>
           set (unscheduled_images (sched_run srt cs empty_scheduler)) = {} \<and>
         img \<in> snd ` set (scheduled_images
                  (schedule_image srt img p (sched_run srt cs empty_scheduler))) \<and>
         img \<notin> set (unscheduled_images
                  (schedule_image srt img p (sched_run srt cs empty_scheduler))) \<and>
         img \<notin> snd ` set (scheduled_images
                  (unschedule_image img (sched_run srt cs empty_scheduler)))"
proof -
  let ?s = "sched_run srt cs empty_scheduler"
  have inv: "sched_inv ?s" using assms sched_inv_empty by (rule sched_inv_run)
  then have 1: "snd ` set (scheduled_images ?s) \<inter> set (unscheduled_images ?s) = {}"
    by (simp add: sched_inv_def)
  have q: "img \<in> snd ` set (scheduled_images (schedule_image srt img p ?s))"
    using assms by (rule schedule_image_queued)
  have "sched_inv (schedule_image srt img p ?s)"
    using assms inv by (rule sched_inv_schedule_image)
  with q have 2: "img \<notin> set (unscheduled_images (schedule_image srt img p ?s))"
    unfolding sched_inv_def by blast
  from inv have "distinct (map snd (scheduled_images ?s))" by (simp add: sched_inv_def)
  then have 3: "img \<notin> snd ` set (scheduled_images (unschedule_image img ?s))"
    by (rule unschedule_image_not_queued)
  from 1 q 2 3 show ?thesis by blast
qed

theorem queue_and_unscheduled_disjoint_witness:
  "snd ` set (scheduled_images
      (sched_run stable_sort [Unschedule (7::nat), Schedule 3 2, Schedule 7 1, Next] empty_scheduler)) \<inter>
     set (unscheduled_images
      (sched_run stable_sort [Unschedule (7::nat), Schedule 3 2, Schedule 7 1, Next] empty_scheduler)) = {} \<and>
   (3::nat) \<notin> set (unscheduled_images (schedule_image stable_sort 3 4
      (sched_run stable_sort [Unschedule (7::nat), Schedule 3 2, Schedule 7 1, Next] empty_scheduler)))"
  using queue_and_unscheduled_disjoint [OF sort_contract_stable_sort,
          of "[Unschedule (7::nat), Schedule 3 2, Schedule 7 1, Next]" 3 4]
  by simp










text \<open>
  C6. \<open>schedule_image(img, p)\<close>: when \<open>img\<close> is not queued the queue gains the entry
  \<open>(p, img)\<close>; when its entry has another priority that entry is replaced by \<open>(p, img)\<close>;
  in both cases one occurrence of \<open>img\<close> leaves the unscheduled set, which holds no
  second one when it is duplicate-free. When the entry already has priority \<open>p\<close> the
  scheduler is left as it was.
\<close>

theorem schedule_image_effect:
  assumes "sort_contract srt"
  shows "(find_entry img (scheduled_images s) = None \<longrightarrow>
            mset (scheduled_images (schedule_image srt img p s))
              = add_mset (p, img) (mset (scheduled_images s))) \<and>
         (\<forall>e. find_entry img (scheduled_images s) = Some e \<and> fst e \<noteq> p \<longrightarrow>
            mset (scheduled_images (schedule_image srt img p s))
              = add_mset (p, img) (mset (scheduled_images s) - {#e#})) \<and>
         (find_entry img (scheduled_images s) \<noteq> Some (p, img) \<longrightarrow>
            mset (unscheduled_images (schedule_image srt img p s))
              = mset (unscheduled_images s) - {#img#} \<and>
            (distinct (unscheduled_images s) \<longrightarrow>
               img \<notin> set (unscheduled_images (schedule_image srt img p s)))) \<and>
         (find_entry img (scheduled_images s) = Some (p, img) \<longrightarrow>
            schedule_image srt img p s = s)"
proof (intro conjI impI allI)
  assume "find_entry img (scheduled_images s) = None"
  then show "mset (scheduled_images (schedule_image srt img p s))
               = add_mset (p, img) (mset (scheduled_images s))"
    by (simp add: schedule_image_def sort_and_purge_def sort_contract_mset[OF assms])
next
  fix e
  assume "find_entry img (scheduled_images s) = Some e \<and> fst e \<noteq> p"
  then show "mset (scheduled_images (schedule_image srt img p s))
               = add_mset (p, img) (mset (scheduled_images s) - {#e#})"
    by (simp add: schedule_image_def sort_and_purge_def sort_contract_mset[OF assms]
        mset_set_priority)
next
  assume n: "find_entry img (scheduled_images s) \<noteq> Some (p, img)"
  have purge: "unscheduled_images (schedule_image srt img p s)
                 = (if img \<in> set (unscheduled_images s)
                    then swap_remove img (unscheduled_images s) else unscheduled_images s)"
  proof (cases "find_entry img (scheduled_images s)")
    case None
    then show ?thesis by (simp add: schedule_image_def sort_and_purge_def)
  next
    case (Some e)
    with n find_entry_Some[OF Some] have "fst e \<noteq> p" by (cases e) auto
    with Some show ?thesis by (simp add: schedule_image_def sort_and_purge_def)
  qed
  show "mset (unscheduled_images (schedule_image srt img p s))
          = mset (unscheduled_images s) - {#img#}"
    unfolding purge by (simp add: mset_swap_remove)
  assume "distinct (unscheduled_images s)"
  then show "img \<notin> set (unscheduled_images (schedule_image srt img p s))"
    unfolding purge by (simp add: set_swap_remove)
next
  assume "find_entry img (scheduled_images s) = Some (p, img)"
  then show "schedule_image srt img p s = s" by (simp add: schedule_image_def)
qed

theorem schedule_image_effect_witness:
  "mset (scheduled_images (schedule_image stable_sort (2::nat) 3
      \<lparr>scheduled_images = [(5, 0), (1, 1)], unscheduled_images = [2, 4]\<rparr>))
     = {#(5, 0), (1, 1), (3, 2)#} \<and>
   mset (scheduled_images (schedule_image stable_sort (1::nat) 7
      \<lparr>scheduled_images = [(5, 0), (1, 1)], unscheduled_images = [2, 4]\<rparr>))
     = {#(5, 0), (7, 1)#} \<and>
   (2::nat) \<notin> set (unscheduled_images (schedule_image stable_sort (2::nat) 3
      \<lparr>scheduled_images = [(5, 0), (1, 1)], unscheduled_images = [2, 4]\<rparr>)) \<and>
   schedule_image stable_sort (1::nat) 1
      \<lparr>scheduled_images = [(5, 0), (1, 1)], unscheduled_images = [2, 4]\<rparr>
     = \<lparr>scheduled_images = [(5, 0), (1, 1)], unscheduled_images = [2, 4]\<rparr>"
  using schedule_image_effect [OF sort_contract_stable_sort,
          of 2 "\<lparr>scheduled_images = [(5, 0::nat), (1, 1)], unscheduled_images = [2, 4]\<rparr>" 3]
        schedule_image_effect [OF sort_contract_stable_sort,
          of 1 "\<lparr>scheduled_images = [(5, 0::nat), (1, 1)], unscheduled_images = [2, 4]\<rparr>" 7]
        schedule_image_effect [OF sort_contract_stable_sort,
          of 1 "\<lparr>scheduled_images = [(5, 0::nat), (1, 1)], unscheduled_images = [2, 4]\<rparr>" 1]
  by (simp add: find_entry_def)

text \<open>
  C7. \<open>unschedule_image(img)\<close>: when \<open>img\<close> has an entry in the queue, one entry of \<open>img\<close>
  is removed, the rest of the queue keeps its order, and the unscheduled set is not
  modified; with one entry per image (as in every reachable state) \<open>img\<close> is then no
  longer queued. When \<open>img\<close> has no entry the queue is not modified and \<open>img\<close> is
  appended to the unscheduled set unless it is there already.
\<close>

theorem unschedule_image_effect:
  "(img \<in> snd ` set (scheduled_images s) \<longrightarrow>
      (\<exists>e\<in>set (scheduled_images s). snd e = img \<and>
         mset (scheduled_images (unschedule_image img s)) = mset (scheduled_images s) - {#e#}) \<and>
      filter (\<lambda>e. snd e \<noteq> img) (scheduled_images (unschedule_image img s))
        = filter (\<lambda>e. snd e \<noteq> img) (scheduled_images s) \<and>
      unscheduled_images (unschedule_image img s) = unscheduled_images s \<and>
      (distinct (map snd (scheduled_images s)) \<longrightarrow>
         img \<notin> snd ` set (scheduled_images (unschedule_image img s)))) \<and>
   (img \<notin> snd ` set (scheduled_images s) \<longrightarrow>
      scheduled_images (unschedule_image img s) = scheduled_images s \<and>
      unscheduled_images (unschedule_image img s)
        = (if img \<in> set (unscheduled_images s) then unscheduled_images s
           else unscheduled_images s @ [img]))"
proof (intro conjI impI)
  assume q: "img \<in> snd ` set (scheduled_images s)"
  then obtain e where e: "find_entry img (scheduled_images s) = Some e"
    using find_entry_None[of img "scheduled_images s"] by auto
  then have s': "unschedule_image img s
                   = s\<lparr>scheduled_images := erase_entry img (scheduled_images s)\<rparr>"
    by (simp add: unschedule_image_def)
  from e find_entry_Some[OF e]
  show "\<exists>e\<in>set (scheduled_images s). snd e = img \<and>
         mset (scheduled_images (unschedule_image img s)) = mset (scheduled_images s) - {#e#}"
    by (intro bexI[of _ e]) (simp_all add: s' mset_erase_entry)
  have "filter (\<lambda>e. snd e \<noteq> img) (erase_entry img es) = filter (\<lambda>e. snd e \<noteq> img) es" for es :: "'a prio_shared_image list"
    by (induction es) auto
  then show "filter (\<lambda>e. snd e \<noteq> img) (scheduled_images (unschedule_image img s))
        = filter (\<lambda>e. snd e \<noteq> img) (scheduled_images s)"
    by (simp add: s')
  show "unscheduled_images (unschedule_image img s) = unscheduled_images s"
    by (simp add: s')
  assume "distinct (map snd (scheduled_images s))"
  then show "img \<notin> snd ` set (scheduled_images (unschedule_image img s))"
    by (rule unschedule_image_not_queued)
next
  assume "img \<notin> snd ` set (scheduled_images s)"
  then have n: "find_entry img (scheduled_images s) = None" by (simp add: find_entry_None)
  then show "scheduled_images (unschedule_image img s) = scheduled_images s"
    by (simp add: unschedule_image_def)
  from n show "unscheduled_images (unschedule_image img s)
        = (if img \<in> set (unscheduled_images s) then unscheduled_images s
           else unscheduled_images s @ [img])"
    by (simp add: unschedule_image_def)
qed

theorem unschedule_image_effect_witness:
  "scheduled_images (unschedule_image (1::nat)
      \<lparr>scheduled_images = [(5, 0), (1, 1)], unscheduled_images = [2]\<rparr>) = [(5, 0)] \<and>
   unscheduled_images (unschedule_image (1::nat)
      \<lparr>scheduled_images = [(5, 0), (1, 1)], unscheduled_images = [2]\<rparr>) = [2] \<and>
   unscheduled_images (unschedule_image (3::nat)
      \<lparr>scheduled_images = [(5, 0), (1, 1)], unscheduled_images = [2]\<rparr>) = [2, 3] \<and>
   unscheduled_images (unschedule_image (2::nat)
      \<lparr>scheduled_images = [(5, 0), (1, 1)], unscheduled_images = [2]\<rparr>) = [2]"
  using unschedule_image_effect
          [of 1 "\<lparr>scheduled_images = [(5, 0::nat), (1, 1)], unscheduled_images = [2]\<rparr>"]
        unschedule_image_effect
          [of 3 "\<lparr>scheduled_images = [(5, 0::nat), (1, 1)], unscheduled_images = [2]\<rparr>"]
        unschedule_image_effect
          [of 2 "\<lparr>scheduled_images = [(5, 0::nat), (1, 1)], unscheduled_images = [2]\<rparr>"]
  by (simp add: unschedule_image_def find_entry_def)

section \<open>Claims about the worker\<close>

lemma run_append: "run srt valid (xs @ ys) st = run srt valid ys (run srt valid xs st)"
  by (induction xs arbitrary: st) simp_all

lemma worker_step_other:
  "\<not> is_worker e \<Longrightarrow> worker (step srt valid e st) = worker st"
  by (cases e) simp_all

lemma worker_run_others:
  "\<forall>e\<in>set evs. \<not> is_worker e \<Longrightarrow> worker (run srt valid evs st) = worker st"
  by (induction evs arbitrary: st) (simp_all add: worker_step_other)

lemma stop_requested_worker_step:
  "stop_requested (worker_step valid ok st) = stop_requested st"
  by (simp add: worker_step_def split: worker_loc.splits prod.splits option.splits)

lemma stop_requested_step:
  "stop_requested (step srt valid e st) \<longleftrightarrow> stop_requested st \<or> e = Request_stop"
  by (cases e) (simp_all add: stop_requested_worker_step)

lemma stop_requested_run:
  "stop_requested (run srt valid evs st) \<longleftrightarrow> stop_requested st \<or> Request_stop \<in> set evs"
  by (induction evs arbitrary: st) (auto simp: stop_requested_step)

lemma exited_worker_step:
  "worker (worker_step valid ok st) = Exited \<Longrightarrow> worker st = Exited \<or> stop_requested st"
  by (auto simp: worker_step_def split: worker_loc.splits prod.splits option.splits if_splits)

lemma exited_step:
  "worker (step srt valid e st) = Exited \<Longrightarrow> worker st = Exited \<or> stop_requested st"
  by (cases e) (auto dest: exited_worker_step)

lemma exited_run:
  "worker (run srt valid evs st) = Exited \<Longrightarrow>
   worker st = Exited \<or> stop_requested (run srt valid evs st)"
proof (induction evs arbitrary: st)
  case Nil
  then show ?case by simp
next
  case (Cons e evs)
  from Cons.IH[of "step srt valid e st"] Cons.prems
  have "worker (step srt valid e st) = Exited \<or> stop_requested (run srt valid (e # evs) st)"
    by simp
  then show ?case
  proof
    assume "worker (step srt valid e st) = Exited"
    then have "worker st = Exited \<or> stop_requested st" by (rule exited_step)
    then show ?thesis by (auto simp: stop_requested_run stop_requested_step)
  qed simp
qed

text \<open>The invariant of the scheduler also holds along every run of the whole system.\<close>

lemma sched_inv_worker_step:
  "sched_inv (sched st) \<Longrightarrow> sched_inv (sched (worker_step valid ok st))"
proof (cases "worker st")
  case Poll
  assume inv: "sched_inv (sched st)"
  have "sched (worker_step valid ok st) = sched st \<or>
        sched (worker_step valid ok st) = snd (next_scheduled_image (sched st))"
    using Poll by (simp add: worker_step_def split: prod.splits option.splits)
  with inv show ?thesis by (auto simp: sched_inv_next_scheduled_image)
next
  case (Post_load j)
  assume "sched_inv (sched st)"
  with Post_load show ?thesis by (simp add: worker_step_def sched_inv_def)
qed (simp_all add: worker_step_def)

lemma sched_inv_system_step:
  "sort_contract srt \<Longrightarrow> sched_inv (sched st) \<Longrightarrow> sched_inv (sched (step srt valid e st))"
  by (cases e)
    (simp_all add: sched_inv_schedule_image sched_inv_unschedule_image sched_inv_worker_step)

lemma sched_inv_system_run:
  "sort_contract srt \<Longrightarrow> sched_inv (sched st) \<Longrightarrow> sched_inv (sched (run srt valid evs st))"
  by (induction evs arbitrary: st) (simp_all add: sched_inv_system_step)

text \<open>
  C8. The worker leaves \<open>work_loop\<close> only after a stop was requested: in a run from a
  state in which the worker is still in the loop and no stop is requested, the worker is
  at \<open>Exited\<close> only if the run contains \<open>request_stop()\<close>. On an empty queue the worker goes
  to \<open>wait\<close>; a dequeued image that needs no load, and a load that fails, bring it back
  to the head of the loop.
\<close>

theorem work_loop_exits_only_on_stop:
  "(worker st \<noteq> Exited \<and> \<not> stop_requested st \<and> worker (run srt valid evs st) = Exited
      \<longrightarrow> Request_stop \<in> set evs) \<and>
   (worker st = Poll \<and> \<not> stop_requested st \<and> scheduled_images (sched st) = []
      \<longrightarrow> worker (run srt valid [Worker a, Worker b] st) = Waiting) \<and>
   (worker st = Dequeued img \<and> valid (images st img)
      \<longrightarrow> worker (run srt valid [Worker a] st) = Poll) \<and>
   (worker st = Loading img
      \<longrightarrow> worker (run srt valid [Worker False, Worker b] st) = Poll)"
proof (intro conjI impI)
  assume a: "worker st \<noteq> Exited \<and> \<not> stop_requested st \<and> worker (run srt valid evs st) = Exited"
  then have "stop_requested (run srt valid evs st)" using exited_run by blast
  with a show "Request_stop \<in> set evs" by (simp add: stop_requested_run)
next
  assume "worker st = Poll \<and> \<not> stop_requested st \<and> scheduled_images (sched st) = []"
  then show "worker (run srt valid [Worker a, Worker b] st) = Waiting"
    by (simp add: worker_step_def next_scheduled_image_def)
next
  assume "worker st = Dequeued img \<and> valid (images st img)"
  then show "worker (run srt valid [Worker a] st) = Poll"
    by (simp add: worker_step_def)
next
  assume "worker st = Loading img"
  then show "worker (run srt valid [Worker False, Worker b] st) = Poll"
    by (simp add: worker_step_def)
qed

theorem work_loop_exits_only_on_stop_witness:
  "worker (run stable_sort (\<lambda>s. s \<noteq> unloaded)
      [Call_schedule (0::nat) 0, Worker True, Worker True, Worker False, Worker True, Worker True,
       Worker True, Request_stop, Worker True, Worker True, Worker True] initial_state) = Exited \<and>
   Request_stop \<in> set [Call_schedule (0::nat) 0, Worker True, Worker True, Worker False,
       Worker True, Worker True, Worker True, Request_stop, Worker True, Worker True, Worker True] \<and>
   worker (run stable_sort (\<lambda>s. s \<noteq> unloaded) [Worker True, Worker True]
      (initial_state :: nat source_state)) = Waiting \<and>
   worker (run stable_sort (\<lambda>s. s \<noteq> unloaded) [Worker True]
      ((initial_state :: nat source_state)\<lparr>worker := Dequeued 0, images := (\<lambda>_. loaded)\<rparr>)) = Poll \<and>
   worker (run stable_sort (\<lambda>s. s \<noteq> unloaded) [Worker False, Worker True]
      ((initial_state :: nat source_state)\<lparr>worker := Loading 0\<rparr>)) = Poll"
  using work_loop_exits_only_on_stop
          [of "initial_state :: nat source_state" stable_sort "\<lambda>s. s \<noteq> unloaded"
              "[Call_schedule (0::nat) 0, Worker True, Worker True, Worker False, Worker True,
                Worker True, Worker True, Request_stop, Worker True, Worker True, Worker True]"
              True True]
        work_loop_exits_only_on_stop
          [of "(initial_state :: nat source_state)\<lparr>worker := Dequeued 0, images := (\<lambda>_. loaded)\<rparr>"
              stable_sort "\<lambda>s. s \<noteq> unloaded" "[]" True True 0]
        work_loop_exits_only_on_stop
          [of "(initial_state :: nat source_state)\<lparr>worker := Loading 0\<rparr>"
              stable_sort "\<lambda>s. s \<noteq> unloaded" "[]" True True 0]
  by (simp add: initial_state_def empty_scheduler_def worker_step_def next_scheduled_image_def
      schedule_image_def sort_and_purge_def find_entry_def load_begin_def load_end_def clear_def)

text \<open>
  C10. The step that ends the worker's handling of a loaded image empties the whole
  unscheduled set and changes the state of no image but the one it loaded: the drop
  marks of the others are gone and \<open>clear()\<close> was not called on them. This is the last
  step of every iteration that starts with a dequeued image that needs a load, whatever
  the other threads do in between.
\<close>

theorem post_load_empties_unscheduled_set:
  "(worker st = Post_load img \<longrightarrow>
      unscheduled_images (sched (worker_step valid ok st)) = [] \<and>
      scheduled_images (sched (worker_step valid ok st)) = scheduled_images (sched st) \<and>
      worker (worker_step valid ok st) = Poll \<and>
      (\<forall>j. j \<noteq> img \<longrightarrow> images (worker_step valid ok st) j = images st j)) \<and>
   (worker st = Dequeued img \<and> \<not> valid (images st img) \<and>
    (\<forall>e\<in>set evs1. \<not> is_worker e) \<and> (\<forall>e\<in>set evs2. \<not> is_worker e) \<longrightarrow>
      worker (run srt valid (Worker a # evs1 @ Worker b # evs2) st) = Post_load img \<and>
      unscheduled_images (sched (run srt valid (Worker a # evs1 @ Worker b # evs2 @ [Worker c]) st)) = [])"
proof (intro conjI impI allI)
  assume "worker st = Post_load img"
  then show "unscheduled_images (sched (worker_step valid ok st)) = []"
    and "scheduled_images (sched (worker_step valid ok st)) = scheduled_images (sched st)"
    and "worker (worker_step valid ok st) = Poll"
    and "\<And>j. j \<noteq> img \<Longrightarrow> images (worker_step valid ok st) j = images st j"
    by (simp_all add: worker_step_def clear_def)
next
  assume a: "worker st = Dequeued img \<and> \<not> valid (images st img) \<and>
    (\<forall>e\<in>set evs1. \<not> is_worker e) \<and> (\<forall>e\<in>set evs2. \<not> is_worker e)"
  let ?s1 = "run srt valid evs1 (worker_step valid a st)"
  let ?s2 = "run srt valid evs2 (worker_step valid b ?s1)"
  from a have "worker (worker_step valid a st) = Loading img" by (simp add: worker_step_def)
  with a have "worker ?s1 = Loading img" by (simp add: worker_run_others)
  then have "worker (worker_step valid b ?s1) = Post_load img" by (simp add: worker_step_def)
  with a have p: "worker ?s2 = Post_load img" by (simp add: worker_run_others)
  then show "worker (run srt valid (Worker a # evs1 @ Worker b # evs2) st) = Post_load img"
    by (simp add: run_append)
  from p show "unscheduled_images (sched (run srt valid (Worker a # evs1 @ Worker b # evs2 @ [Worker c]) st)) = []"
    by (simp add: run_append worker_step_def)
qed

theorem post_load_empties_unscheduled_set_witness:
  "unscheduled_images (sched (worker_step (\<lambda>s. s \<noteq> unloaded) True
      \<lparr>sched = \<lparr>scheduled_images = [], unscheduled_images = [1, 2]\<rparr>,
        images = (\<lambda>_. loaded), worker = Post_load (0::nat), stop_requested = False\<rparr>)) = [] \<and>
   images (worker_step (\<lambda>s. s \<noteq> unloaded) True
      \<lparr>sched = \<lparr>scheduled_images = [], unscheduled_images = [1, 2]\<rparr>,
        images = (\<lambda>_. loaded), worker = Post_load (0::nat), stop_requested = False\<rparr>) 1 = loaded \<and>
   unscheduled_images (sched (run stable_sort (\<lambda>s. s \<noteq> unloaded)
      (Worker True # [Call_unschedule 1] @ Worker True # [Call_unschedule 2] @ [Worker True])
      ((initial_state :: nat source_state)\<lparr>worker := Dequeued 0\<rparr>))) = []"
  using post_load_empties_unscheduled_set
          [of "\<lparr>sched = \<lparr>scheduled_images = [], unscheduled_images = [1, 2]\<rparr>,
                images = (\<lambda>_. loaded), worker = Post_load (0::nat), stop_requested = False\<rparr>"
              0 "\<lambda>s. s \<noteq> unloaded" True "[]" "[]" stable_sort True True True]
        post_load_empties_unscheduled_set
          [of "(initial_state :: nat source_state)\<lparr>worker := Dequeued 0\<rparr>"
              0 "\<lambda>s. s \<noteq> unloaded" True "[Call_unschedule 1]" "[Call_unschedule 2]"
              stable_sort True True True]
  by (simp add: initial_state_def)

lemma queued_iff: "queued img st \<longleftrightarrow> img \<in> snd ` set (scheduled_images (sched st))"
  by (simp add: queued_def find_entry_None)

lemma swap_remove_keeps:
  "img \<in> set xs \<Longrightarrow> j \<noteq> img \<Longrightarrow> img \<in> set (swap_remove j xs)"
proof (induction xs)
  case Nil
  then show ?case by simp
next
  case (Cons y ys)
  show ?case
  proof (cases "y = j")
    case True
    with Cons.prems have "img \<in> set ys" by auto
    then have "ys \<noteq> []" by auto
    with \<open>img \<in> set ys\<close> have "img \<in> set (butlast ys @ [last ys])" by simp
    then have "img = last ys \<or> img \<in> set (butlast ys)" by auto
    with True \<open>ys \<noteq> []\<close> show ?thesis by auto
  next
    case False
    with Cons show ?thesis by auto
  qed
qed

lemma schedule_image_other_queue:
  assumes "sort_contract srt" and "j \<noteq> img"
  shows "img \<in> snd ` set (scheduled_images (schedule_image srt j p s))
           \<longleftrightarrow> img \<in> snd ` set (scheduled_images s)"
proof -
  have "snd ` set (set_priority j p (scheduled_images s)) = snd ` set (scheduled_images s)"
    by (metis map_snd_set_priority set_map)
  with assms(2) show ?thesis
    by (auto simp: schedule_image_def sort_and_purge_def sort_contract_set[OF assms(1)]
        split: option.splits)
qed

lemma schedule_image_other_marked:
  assumes "j \<noteq> img" and "img \<in> set (unscheduled_images s)"
  shows "img \<in> set (unscheduled_images (schedule_image srt j p s))"
  using assms
  by (auto simp: schedule_image_def sort_and_purge_def swap_remove_keeps split: option.splits)

lemma unschedule_image_queue_subset:
  "snd ` set (scheduled_images (unschedule_image j s)) \<subseteq> snd ` set (scheduled_images s)"
  using erase_entry_subset[of j "scheduled_images s"]
  by (auto simp: unschedule_image_def split: option.splits)

lemma unschedule_image_keeps_marks:
  "img \<in> set (unscheduled_images s) \<Longrightarrow> img \<in> set (unscheduled_images (unschedule_image j s))"
  by (auto simp: unschedule_image_def split: option.splits)

lemma unschedule_image_marks:
  "find_entry img (scheduled_images s) = None \<Longrightarrow>
   img \<in> set (unscheduled_images (unschedule_image img s))"
  by (auto simp: unschedule_image_def)

lemma drop_inv_worker_step:
  assumes "drop_inv img st"
  shows "drop_inv img (worker_step valid ok st)"
proof (cases "worker st")
  case Poll
  show ?thesis
  proof (cases "stop_requested st \<or> scheduled_images (sched st) = []")
    case True
    with assms Poll show ?thesis
      by (auto simp: drop_inv_def worker_step_def next_scheduled_image_def in_flight_def
          dropped_def queued_iff marked_def)
  next
    case False
    then have ne: "scheduled_images (sched st) \<noteq> []" by simp
    then have "snd (last (scheduled_images (sched st))) \<in> snd ` set (scheduled_images (sched st))"
      by simp
    with assms have l: "snd (last (scheduled_images (sched st))) \<noteq> img"
      by (auto simp: drop_inv_def queued_iff)
    from assms have "img \<notin> snd ` set (butlast (scheduled_images (sched st)))"
      by (auto simp: drop_inv_def queued_iff dest: in_set_butlastD)
    with assms Poll False l show ?thesis
      by (auto simp: drop_inv_def worker_step_def next_scheduled_image_def in_flight_def
          dropped_def queued_iff marked_def)
  qed
next
  case (Dequeued j)
  with assms show ?thesis
    by (auto simp: drop_inv_def worker_step_def in_flight_def dropped_def queued_iff marked_def
        load_begin_def)
next
  case (Loading j)
  with assms show ?thesis
    by (auto simp: drop_inv_def worker_step_def in_flight_def dropped_def queued_iff marked_def
        load_end_def)
next
  case (Post_load j)
  with assms show ?thesis
    by (auto simp: drop_inv_def worker_step_def in_flight_def dropped_def queued_iff marked_def
        clear_def)
next
  case Check_stop
  with assms show ?thesis
    by (auto simp: drop_inv_def worker_step_def in_flight_def dropped_def queued_iff marked_def)
next
  case Waiting
  with assms show ?thesis
    by (auto simp: drop_inv_def worker_step_def in_flight_def dropped_def queued_iff marked_def)
next
  case Exited
  with assms show ?thesis
    by (auto simp: drop_inv_def worker_step_def in_flight_def dropped_def queued_iff marked_def)
qed

lemma drop_inv_step:
  assumes srt: "sort_contract srt" and inv: "drop_inv img st" and e: "\<not> schedules img e"
  shows "drop_inv img (step srt valid e st)"
proof (cases e)
  case (Call_schedule j p)
  with e have j: "j \<noteq> img" by simp
  from inv j Call_schedule show ?thesis
    using schedule_image_other_queue[OF srt j, where s = "sched st" and p = p]
      schedule_image_other_marked[OF j, where s = "sched st" and srt = srt and p = p]
    by (auto simp: drop_inv_def in_flight_def dropped_def queued_iff marked_def)
next
  case (Call_unschedule j)
  from inv Call_unschedule show ?thesis
    using unschedule_image_queue_subset[of j "sched st"]
      unschedule_image_keeps_marks[of img "sched st" j]
    by (auto simp: drop_inv_def in_flight_def dropped_def queued_iff marked_def)
next
  case (Call_clear j)
  with inv show ?thesis
    by (auto simp: drop_inv_def in_flight_def dropped_def queued_iff marked_def clear_def)
next
  case Request_stop
  with inv show ?thesis
    by (auto simp: drop_inv_def in_flight_def dropped_def queued_iff marked_def)
next
  case (Worker ok)
  with inv show ?thesis by (simp add: drop_inv_worker_step)
qed

lemma drop_inv_run:
  "sort_contract srt \<Longrightarrow> drop_inv img st \<Longrightarrow> \<forall>e\<in>set evs. \<not> schedules img e \<Longrightarrow>
   drop_inv img (run srt valid evs st)"
  by (induction evs arbitrary: st) (simp_all add: drop_inv_step)

lemma steps_left_worker_step:
  "drop_inv img st \<Longrightarrow> steps_left img (worker_step valid ok st) = steps_left img st - 1"
  by (cases "worker st")
    (auto simp: steps_left_def worker_step_def next_scheduled_image_def drop_inv_def
      dropped_def queued_iff in_flight_def)

lemma steps_left_step:
  "drop_inv img st \<Longrightarrow>
   steps_left img (step srt valid e st) = steps_left img st - (if is_worker e then 1 else 0)"
  by (cases e) (simp_all add: steps_left_worker_step, simp_all add: steps_left_def)

lemma dropped_after_two_steps:
  "sort_contract srt \<Longrightarrow> drop_inv img st \<Longrightarrow> \<forall>e\<in>set evs. \<not> schedules img e \<Longrightarrow>
   steps_left img st \<le> length (filter is_worker evs) \<Longrightarrow>
   dropped img (run srt valid evs st)"
proof (induction evs arbitrary: st)
  case Nil
  then show ?case
    by (auto simp: steps_left_def drop_inv_def in_flight_def split: if_splits)
next
  case (Cons e evs)
  have "drop_inv img (step srt valid e st)"
    using Cons.prems by (simp add: drop_inv_step)
  moreover have "steps_left img (step srt valid e st) \<le> length (filter is_worker evs)"
    using Cons.prems by (simp add: steps_left_step split: if_splits)
  ultimately show ?case using Cons.IH[of "step srt valid e st"] Cons.prems by simp
qed

text \<open>
  Where the drop mark does its work. Let the load of \<open>img\<close> be in flight and \<open>img\<close> have
  no entry in the queue when \<open>unschedule_image(img)\<close> is called, and let no
  \<open>schedule_image\<close> for \<open>img\<close> follow. Then, whatever else the threads do, \<open>img\<close> keeps
  its drop mark while the load is in flight, and once the worker has taken its two
  remaining steps (the end of \<open>load()\<close> and the block under the lock) \<open>img\<close> is
  \<open>unloaded\<close> and stays so.
\<close>

lemma drop_mark_reaches_post_load:
  assumes "sort_contract srt"
    and "in_flight img st" and "\<not> queued img st"
    and "\<forall>e\<in>set evs. \<not> schedules img e"
  shows "((in_flight img (run srt valid evs (step srt valid (Call_unschedule img) st)) \<and>
           marked img (run srt valid evs (step srt valid (Call_unschedule img) st))) \<or>
          dropped img (run srt valid evs (step srt valid (Call_unschedule img) st))) \<and>
         (2 \<le> length (filter is_worker evs) \<longrightarrow>
            dropped img (run srt valid evs (step srt valid (Call_unschedule img) st)) \<and>
            images (run srt valid evs (step srt valid (Call_unschedule img) st)) img = unloaded)"
proof -
  let ?s1 = "step srt valid (Call_unschedule img) st"
  from assms(3) have n: "find_entry img (scheduled_images (sched st)) = None"
    unfolding queued_def by blast
  then have "marked img ?s1" by (simp add: marked_def unschedule_image_marks)
  moreover from n have "\<not> queued img ?s1" by (simp add: queued_def unschedule_image_def)
  moreover from assms(2) have "in_flight img ?s1" by (simp add: in_flight_def)
  ultimately have inv: "drop_inv img ?s1" by (simp add: drop_inv_def)
  have "drop_inv img (run srt valid evs ?s1)"
    using assms(1) inv assms(4) by (rule drop_inv_run)
  then have 1: "(in_flight img (run srt valid evs ?s1) \<and> marked img (run srt valid evs ?s1)) \<or>
                dropped img (run srt valid evs ?s1)"
    by (simp add: drop_inv_def)
  have "steps_left img ?s1 \<le> 2" by (simp add: steps_left_def)
  then have 2: "2 \<le> length (filter is_worker evs) \<Longrightarrow> dropped img (run srt valid evs ?s1)"
    using dropped_after_two_steps[OF assms(1) inv assms(4), of valid] by simp
  from 1 2 show ?thesis by (auto simp: dropped_def)
qed

lemma drop_mark_reaches_post_load_example:
  "in_flight (0::nat) (run stable_sort (\<lambda>s. s \<noteq> unloaded)
      [Call_schedule 0 0, Worker True, Worker True] initial_state) \<and>
   \<not> queued (0::nat) (run stable_sort (\<lambda>s. s \<noteq> unloaded)
      [Call_schedule 0 0, Worker True, Worker True] initial_state) \<and>
   images (run stable_sort (\<lambda>s. s \<noteq> unloaded)
      [Call_clear 0, Worker True, Call_schedule 1 3, Worker True]
      (step stable_sort (\<lambda>s. s \<noteq> unloaded) (Call_unschedule 0)
        (run stable_sort (\<lambda>s. s \<noteq> unloaded)
          [Call_schedule 0 0, Worker True, Worker True] initial_state))) (0::nat) = unloaded"
proof -
  let ?st = "run stable_sort (\<lambda>s. s \<noteq> unloaded)
      [Call_schedule (0::nat) 0, Worker True, Worker True] initial_state"
  have st: "?st = \<lparr>sched = empty_scheduler, images = (\<lambda>_. unloaded)(0 := loading),
                   worker = Loading 0, stop_requested = False\<rparr>"
    by (simp add: initial_state_def empty_scheduler_def worker_step_def next_scheduled_image_def
        schedule_image_def sort_and_purge_def find_entry_def load_begin_def)
  have f: "in_flight 0 ?st" unfolding st by (simp add: in_flight_def)
  have q: "\<not> queued 0 ?st" unfolding st by (simp add: queued_def find_entry_def empty_scheduler_def)
  have e: "\<forall>e\<in>set [Call_clear 0, Worker True, Call_schedule 1 3, Worker True].
             \<not> schedules (0::nat) e"
    by simp
  from drop_mark_reaches_post_load
         [OF sort_contract_stable_sort f q e, of "\<lambda>s. s \<noteq> unloaded"] f q
  show ?thesis by simp
qed

text \<open>
  A \<open>schedule_image\<close> that follows takes the mark away again, as it is meant to: the
  image is wanted once more. Image 0 is scheduled and dequeued and its load begins;
  \<open>unschedule_image(0)\<close> marks it; \<open>schedule_image(0, 0)\<close> removes the mark; the load
  succeeds and image 0 stays \<open>loaded\<close>.
\<close>

lemma rescheduled_in_flight_image_stays_loaded:
  "in_flight (0::nat) (run stable_sort (\<lambda>s. s \<noteq> unloaded)
      [Call_schedule 0 0, Worker True, Worker True] initial_state) \<and>
   marked (0::nat) (run stable_sort (\<lambda>s. s \<noteq> unloaded)
      [Call_schedule 0 0, Worker True, Worker True, Call_unschedule 0] initial_state) \<and>
   images (run stable_sort (\<lambda>s. s \<noteq> unloaded)
      [Call_schedule 0 0, Worker True, Worker True, Call_unschedule 0,
       Call_schedule 0 0, Worker True, Worker True] initial_state) (0::nat) = loaded \<and>
   worker (run stable_sort (\<lambda>s. s \<noteq> unloaded)
      [Call_schedule (0::nat) 0, Worker True, Worker True, Call_unschedule 0,
       Call_schedule 0 0, Worker True, Worker True] initial_state) = Poll"
  by (simp add: initial_state_def empty_scheduler_def worker_step_def next_scheduled_image_def
      schedule_image_def unschedule_image_def sort_and_purge_def find_entry_def
      load_begin_def load_end_def clear_def in_flight_def marked_def)

text \<open>
  C2. An image whose load is in flight when \<open>unschedule_image\<close> is called for it should
  be \<open>unloaded\<close> once the load is over. The code misses the image that was queued again
  while its load is in flight: image 0 is scheduled, dequeued, and its load begins;
  \<open>schedule_image(0, 1)\<close> finds no entry and queues it again; \<open>unschedule_image(0)\<close>
  finds that entry, erases it and sets no mark, and \<open>unload_image\<close> goes on to
  \<open>clear()\<close>; the load succeeds, the worker finds the unscheduled set empty and does not
  call \<open>clear()\<close>. Nothing is queued, no call follows, and image 0 is left \<open>loaded\<close>.
\<close>

theorem unschedule_of_requeued_in_flight_image_sets_no_mark:
  "worker (run stable_sort (\<lambda>s. s \<noteq> unloaded)
      [Call_schedule (0::nat) 0, Worker True, Worker True, Call_schedule 0 1]
      initial_state) = Loading 0 \<and>
   scheduled_images (sched (run stable_sort (\<lambda>s. s \<noteq> unloaded)
      [Call_schedule (0::nat) 0, Worker True, Worker True, Call_schedule 0 1]
      initial_state)) = [(1, 0)] \<and>
   sched (run stable_sort (\<lambda>s. s \<noteq> unloaded)
      [Call_schedule (0::nat) 0, Worker True, Worker True, Call_schedule 0 1, Call_unschedule 0]
      initial_state) = \<lparr>scheduled_images = [], unscheduled_images = []\<rparr> \<and>
   images (run stable_sort (\<lambda>s. s \<noteq> unloaded)
      [Call_schedule (0::nat) 0, Worker True, Worker True, Call_schedule 0 1, Call_unschedule 0,
       Call_clear 0, Worker True, Worker True]
      initial_state) 0 = loaded \<and>
   worker (run stable_sort (\<lambda>s. s \<noteq> unloaded)
      [Call_schedule (0::nat) 0, Worker True, Worker True, Call_schedule 0 1, Call_unschedule 0,
       Call_clear 0, Worker True, Worker True]
      initial_state) = Poll \<and>
   sched (run stable_sort (\<lambda>s. s \<noteq> unloaded)
      [Call_schedule (0::nat) 0, Worker True, Worker True, Call_schedule 0 1, Call_unschedule 0,
       Call_clear 0, Worker True, Worker True]
      initial_state) = \<lparr>scheduled_images = [], unscheduled_images = []\<rparr>"
  by (simp add: initial_state_def empty_scheduler_def worker_step_def next_scheduled_image_def
      schedule_image_def unschedule_image_def sort_and_purge_def find_entry_def
      load_begin_def load_end_def clear_def)

section \<open>Claims about filesystem events and the file list\<close>

text \<open>
  What \<open>list_files\<close> returns: the paths contributed by the start-up files, each once, in
  strictly descending order.
\<close>

lemma distinct_remdups_adj_sorted:
  "sorted (xs :: ('p::linorder) list) \<Longrightarrow> distinct (remdups_adj xs)"
proof (induction xs rule: remdups_adj.induct)
  case (3 x y xs)
  show ?case
  proof (cases "x = y")
    case True
    with 3 show ?thesis by simp
  next
    case False
    with "3.prems" have "x \<notin> set (y # xs)" by auto
    with False 3 show ?thesis by simp
  qed
qed simp_all

lemma set_list_files:
  "set (list_files F initializer) = (\<Union>p\<in>set initializer. set (list_entry F p))"
  by (simp add: list_files_def)

lemma list_files_strictly_descending:
  "sorted_wrt (\<lambda>a b. b < a) (list_files F initializer)"
proof -
  let ?ys = "sort (concat (map (list_entry F) initializer))"
  have "sorted (remdups_adj ?ys)" and "distinct (remdups_adj ?ys)"
    by (simp_all add: distinct_remdups_adj_sorted)
  then have "sorted_wrt (<) (remdups_adj ?ys)" by (simp add: strict_sorted_iff)
  then show ?thesis by (simp add: list_files_def sorted_wrt_rev)
qed

text \<open>
  C5. \<open>file_event(path, action)\<close>: for \<open>removed\<close> on the current image's path the
  previous current becomes \<open>backup_\<close>, \<open>change_\<close> becomes \<open>replace_deleted\<close> and the path
  is removed from the collection; for \<open>modified\<close> on the current image's path the
  previous current becomes \<open>backup_\<close>, \<open>change_\<close> becomes \<open>reload\<close> and
  \<open>invalidate_current()\<close> is called; for \<open>modified\<close> or \<open>created\<close> on another path
  \<open>add(path)\<close> is called and nothing else changes. (For \<open>removed\<close> on another path the
  path is removed and no transaction is recorded.)
\<close>

theorem file_event_cases:
  "(act = removed \<and> is_current C path (cache_current C (cache st)) \<longrightarrow>
      file_event C path act st =
        st\<lparr>backup := cache_current C (cache st), change := replace_deleted,
           cache := cache_remove C path (cache st)\<rparr>) \<and>
   (act = modified \<and> is_current C path (cache_current C (cache st)) \<longrightarrow>
      file_event C path act st =
        st\<lparr>backup := cache_current C (cache st), change := reload,
           cache := cache_invalidate_current C (cache st)\<rparr>) \<and>
   ((act = modified \<or> act = created) \<and> \<not> is_current C path (cache_current C (cache st)) \<longrightarrow>
      file_event C path act st = st\<lparr>cache := cache_add C path (cache st)\<rparr>) \<and>
   (act = removed \<and> \<not> is_current C path (cache_current C (cache st)) \<longrightarrow>
      file_event C path act st = st\<lparr>cache := cache_remove C path (cache st)\<rparr>)"
  by (auto simp: file_event_def Let_def)

theorem file_event_cases_witness:
  "file_event spec_cache_ops ''/d/b.png'' removed
      \<lparr>cache = \<lparr>entries = [''/d/c.png'', ''/d/b.png''], cursor = Some ''/d/b.png''\<rparr>,
        backup = None, change = next, startup_files = [''/d''],
        filesystem_watcher = \<lparr>watched = [], calls = []\<rparr>\<rparr>
     = \<lparr>cache = \<lparr>entries = [''/d/c.png''], cursor = None\<rparr>,
        backup = Some ''/d/b.png'', change = replace_deleted, startup_files = [''/d''],
        filesystem_watcher = \<lparr>watched = [], calls = []\<rparr>\<rparr> \<and>
   file_event spec_cache_ops ''/d/b.png'' modified
      \<lparr>cache = \<lparr>entries = [''/d/c.png'', ''/d/b.png''], cursor = Some ''/d/b.png''\<rparr>,
        backup = None, change = next, startup_files = [''/d''],
        filesystem_watcher = \<lparr>watched = [], calls = []\<rparr>\<rparr>
     = \<lparr>cache = \<lparr>entries = [''/d/c.png'', ''/d/b.png''], cursor = Some ''/d/b.png''\<rparr>,
        backup = Some ''/d/b.png'', change = reload, startup_files = [''/d''],
        filesystem_watcher = \<lparr>watched = [], calls = []\<rparr>\<rparr> \<and>
   file_event spec_cache_ops ''/d/a.png'' created
      \<lparr>cache = \<lparr>entries = [''/d/c.png'', ''/d/b.png''], cursor = Some ''/d/b.png''\<rparr>,
        backup = None, change = next, startup_files = [''/d''],
        filesystem_watcher = \<lparr>watched = [], calls = []\<rparr>\<rparr>
     = \<lparr>cache = \<lparr>entries = [''/d/c.png'', ''/d/b.png'', ''/d/a.png''], cursor = Some ''/d/b.png''\<rparr>,
        backup = None, change = next, startup_files = [''/d''],
        filesystem_watcher = \<lparr>watched = [], calls = []\<rparr>\<rparr>"
  using file_event_cases
          [of removed spec_cache_ops "''/d/b.png''"
              "\<lparr>cache = \<lparr>entries = [''/d/c.png'', ''/d/b.png''], cursor = Some ''/d/b.png''\<rparr>,
                backup = None, change = next, startup_files = [''/d''],
                filesystem_watcher = \<lparr>watched = [], calls = []\<rparr>\<rparr>"]
        file_event_cases
          [of modified spec_cache_ops "''/d/b.png''"
              "\<lparr>cache = \<lparr>entries = [''/d/c.png'', ''/d/b.png''], cursor = Some ''/d/b.png''\<rparr>,
                backup = None, change = next, startup_files = [''/d''],
                filesystem_watcher = \<lparr>watched = [], calls = []\<rparr>\<rparr>"]
        file_event_cases
          [of created spec_cache_ops "''/d/a.png''"
              "\<lparr>cache = \<lparr>entries = [''/d/c.png'', ''/d/b.png''], cursor = Some ''/d/b.png''\<rparr>,
                backup = None, change = next, startup_files = [''/d''],
                filesystem_watcher = \<lparr>watched = [], calls = []\<rparr>\<rparr>"]
  by (simp add: spec_cache_ops_def is_current_def)

text \<open>
  C9 (as the code has it). \<open>populate_cache\<close> hands the listed files to the cache. When
  \<open>watch_fs\<close> is set it then calls \<open>unwatch()\<close> and \<open>watch(files)\<close>, after which the
  watcher watches exactly the listed files; when \<open>watch_fs\<close> is not set the watcher is
  left as it was. \<open>reload_file_list\<close> does the same through \<open>populate_cache\<close>.
\<close>

theorem populate_cache_rewatches_if_configured:
  "cache (populate_cache F C watch_fs st) = cache_set C (list_files F (startup_files st)) (cache st) \<and>
   (watch_fs \<longrightarrow>
      watched (filesystem_watcher (populate_cache F C watch_fs st))
        = list_files F (startup_files st) \<and>
      calls (filesystem_watcher (populate_cache F C watch_fs st))
        = calls (filesystem_watcher st) @ [Unwatch, Watch (list_files F (startup_files st))] \<and>
      watched (filesystem_watcher (reload_file_list F C watch_fs st))
        = list_files F (startup_files st) \<and>
      calls (filesystem_watcher (reload_file_list F C watch_fs st))
        = calls (filesystem_watcher st) @ [Unwatch, Watch (list_files F (startup_files st))]) \<and>
   (\<not> watch_fs \<longrightarrow>
      filesystem_watcher (populate_cache F C watch_fs st) = filesystem_watcher st \<and>
      filesystem_watcher (reload_file_list F C watch_fs st) = filesystem_watcher st)"
  by (simp add: populate_cache_def reload_file_list_def Let_def watch_def unwatch_def)

theorem populate_cache_rewatches_if_configured_witness:
  "watched (filesystem_watcher (populate_cache
      \<lparr>is_directory = (\<lambda>p. p = ''/d''),
        directory_iterator = (\<lambda>p. if p = ''/d'' then [''/d/a.png'', ''/d/b.png''] else []),
        absolute = (\<lambda>p. p)\<rparr>
      spec_cache_ops True
      \<lparr>cache = \<lparr>entries = [], cursor = None\<rparr>, backup = None, change = reload,
        startup_files = [''/d/a.png'', ''/d''],
        filesystem_watcher = \<lparr>watched = [''/old''], calls = []\<rparr>\<rparr>))
     = [''/d/b.png'', ''/d/a.png'', ''/d''] \<and>
   filesystem_watcher (populate_cache
      \<lparr>is_directory = (\<lambda>p. p = ''/d''),
        directory_iterator = (\<lambda>p. if p = ''/d'' then [''/d/a.png'', ''/d/b.png''] else []),
        absolute = (\<lambda>p. p)\<rparr>
      spec_cache_ops False
      \<lparr>cache = \<lparr>entries = [], cursor = None\<rparr>, backup = None, change = reload,
        startup_files = [''/d/a.png'', ''/d''],
        filesystem_watcher = \<lparr>watched = [''/old''], calls = []\<rparr>\<rparr>)
     = \<lparr>watched = [''/old''], calls = []\<rparr>"
  using populate_cache_rewatches_if_configured
          [of "\<lparr>is_directory = (\<lambda>p. p = ''/d''),
                directory_iterator = (\<lambda>p. if p = ''/d'' then [''/d/a.png'', ''/d/b.png''] else []),
                absolute = (\<lambda>p. p)\<rparr>"
              spec_cache_ops True
              "\<lparr>cache = \<lparr>entries = [], cursor = None\<rparr>, backup = None, change = reload,
                startup_files = [''/d/a.png'', ''/d''],
                filesystem_watcher = \<lparr>watched = [''/old''], calls = []\<rparr>\<rparr>"]
        populate_cache_rewatches_if_configured
          [of "\<lparr>is_directory = (\<lambda>p. p = ''/d''),
                directory_iterator = (\<lambda>p. if p = ''/d'' then [''/d/a.png'', ''/d/b.png''] else []),
                absolute = (\<lambda>p. p)\<rparr>"
              spec_cache_ops False
              "\<lparr>cache = \<lparr>entries = [], cursor = None\<rparr>, backup = None, change = reload,
                startup_files = [''/d/a.png'', ''/d''],
                filesystem_watcher = \<lparr>watched = [''/old''], calls = []\<rparr>\<rparr>"]
  by (simp add: list_files_def list_entry_def)

text \<open>
  C9 as stated fails when \<open>watch_fs\<close> is not set: \<open>populate_cache\<close> lists
  \<open>/d/b.png\<close>, \<open>/d/a.png\<close> and \<open>/d\<close> and hands them to the cache, and the watcher still
  watches \<open>/old\<close>; neither \<open>unwatch()\<close> nor \<open>watch\<close> was called.
\<close>

theorem populate_cache_without_watch_fs_keeps_watches:
  "list_files
      \<lparr>is_directory = (\<lambda>p. p = ''/d''),
        directory_iterator = (\<lambda>p. if p = ''/d'' then [''/d/a.png'', ''/d/b.png''] else []),
        absolute = (\<lambda>p. p)\<rparr> [''/d/a.png'', ''/d'']
     = [''/d/b.png'', ''/d/a.png'', ''/d''] \<and>
   entries (cache (populate_cache
      \<lparr>is_directory = (\<lambda>p. p = ''/d''),
        directory_iterator = (\<lambda>p. if p = ''/d'' then [''/d/a.png'', ''/d/b.png''] else []),
        absolute = (\<lambda>p. p)\<rparr>
      spec_cache_ops False
      \<lparr>cache = \<lparr>entries = [], cursor = None\<rparr>, backup = None, change = reload,
        startup_files = [''/d/a.png'', ''/d''],
        filesystem_watcher = \<lparr>watched = [''/old''], calls = []\<rparr>\<rparr>))
     = [''/d/b.png'', ''/d/a.png'', ''/d''] \<and>
   filesystem_watcher (populate_cache
      \<lparr>is_directory = (\<lambda>p. p = ''/d''),
        directory_iterator = (\<lambda>p. if p = ''/d'' then [''/d/a.png'', ''/d/b.png''] else []),
        absolute = (\<lambda>p. p)\<rparr>
      spec_cache_ops False
      \<lparr>cache = \<lparr>entries = [], cursor = None\<rparr>, backup = None, change = reload,
        startup_files = [''/d/a.png'', ''/d''],
        filesystem_watcher = \<lparr>watched = [''/old''], calls = []\<rparr>\<rparr>)
     = \<lparr>watched = [''/old''], calls = []\<rparr>"
  by (simp add: populate_cache_def list_files_def list_entry_def spec_cache_ops_def Let_def)

end
